theory Spec2Isabelle
  imports Complex_Main
begin

section \<open>Python string primitives used by the scanner\<close>

text \<open>
  A Python \<open>str\<close> is modelled as a \<open>string\<close>: the list of the bytes of its UTF-8
  encoding. Every delimiter the scanner looks at (\<open>: / ? # & = ; [ ] %\<close>, the letters of
  \<open>http\<close>) is ASCII, so splitting, searching and joining act on the bytes exactly as
  CPython acts on the code points. The functions below are the builtin operations the
  source calls; they are written from their documented behaviour.
\<close>

text \<open>\<open>s.startswith(p)\<close>.\<close>

fun startswith :: "string \<Rightarrow> string \<Rightarrow> bool" where
  "startswith s [] = True"
| "startswith [] (p # ps) = False"
| "startswith (c # s) (p # ps) = (c = p \<and> startswith s ps)"

text \<open>\<open>p in s\<close> for strings: \<open>p\<close> occurs in \<open>s\<close> as a contiguous substring.\<close>

fun contains :: "string \<Rightarrow> string \<Rightarrow> bool" where
  "contains [] p = (p = [])"
| "contains (c # s) p = (startswith (c # s) p \<or> contains s p)"

text \<open>\<open>s.replace(c, new)\<close> for a one-character pattern \<open>c\<close>: every occurrence, left to right.\<close>

definition replace :: "char \<Rightarrow> string \<Rightarrow> string \<Rightarrow> string" where
  "replace c new s = concat (map (\<lambda>x. if x = c then new else [x]) s)"

text \<open>\<open>s.split(c)\<close> for a one-character separator: never the empty list.\<close>

fun split_on :: "char \<Rightarrow> string \<Rightarrow> string list" where
  "split_on c [] = [[]]"
| "split_on c (x # xs) =
     (if x = c then [] # split_on c xs
      else (case split_on c xs of w # ws \<Rightarrow> (x # w) # ws | [] \<Rightarrow> [[x]]))"

text \<open>\<open>c.join(parts)\<close> for a one-character separator.\<close>

fun join :: "char \<Rightarrow> string list \<Rightarrow> string" where
  "join c [] = []"
| "join c [p] = p"
| "join c (p # q # ps) = p @ c # join c (q # ps)"

text \<open>\<open>s.rstrip(c)\<close> for a single character \<open>c\<close>.\<close>

definition rstrip :: "char \<Rightarrow> string \<Rightarrow> string" where
  "rstrip c s = rev (dropWhile (\<lambda>x. x = c) (rev s))"

text \<open>
  \<open>s.lower()\<close> and \<open>s.capitalize()\<close> on text that is ASCII, where CPython maps exactly the
  letters below. The scanner and the library apply them to such text in two places: the
  scheme candidate of \<open>urlsplit\<close>, lowercased only when it holds scheme characters, and the
  type label of a finding. \<open>param.lower()\<close> in \<open>get_parameter_context\<close> acts on arbitrary
  names; it is not this function but a parameter of the orchestrator.
\<close>

definition ascii_lower :: "char \<Rightarrow> char" where
  "ascii_lower c =
     (case map_of (zip ''ABCDEFGHIJKLMNOPQRSTUVWXYZ'' ''abcdefghijklmnopqrstuvwxyz'') c of
        Some d \<Rightarrow> d | None \<Rightarrow> c)"

definition ascii_upper :: "char \<Rightarrow> char" where
  "ascii_upper c =
     (case map_of (zip ''abcdefghijklmnopqrstuvwxyz'' ''ABCDEFGHIJKLMNOPQRSTUVWXYZ'') c of
        Some d \<Rightarrow> d | None \<Rightarrow> c)"

definition lower :: "string \<Rightarrow> string" where
  "lower s = map ascii_lower s"

definition capitalize :: "string \<Rightarrow> string" where
  "capitalize s = (case s of [] \<Rightarrow> [] | c # cs \<Rightarrow> ascii_upper c # lower cs)"

text \<open>
  \<open>dict.fromkeys(xs)\<close> read back as a list, and the key order of a dict filled in the
  order of \<open>xs\<close>: the first occurrence of every element, in order.
\<close>

fun dict_keys :: "'a list \<Rightarrow> 'a list" where
  "dict_keys [] = []"
| "dict_keys (x # xs) = x # filter (\<lambda>y. y \<noteq> x) (dict_keys xs)"

text \<open>\<open>xs.index(x)\<close>: the first position of \<open>x\<close>; \<open>None\<close> stands for the \<open>ValueError\<close>.\<close>

fun index_of :: "'a list \<Rightarrow> 'a \<Rightarrow> nat option" where
  "index_of [] x = None"
| "index_of (y # ys) x = (if y = x then Some 0 else map_option Suc (index_of ys x))"


section \<open>Scanner state\<close>

text \<open>
  One entry of \<open>json_results\<close>, the dict built by \<open>record_vulnerability\<close>; \<open>ftype\<close> is
  its key \<open>"type"\<close>.
\<close>

record finding =
  timestamp :: string
  domain :: string
  parameter :: string
  payload :: string
  url :: string
  alert_text :: "string option"
  ftype :: string

text \<open>
  The fields of \<open>XSSScanner\<close> that the scan reads and writes. \<open>json_output\<close> is
  \<open>config.json_output\<close>; the four counters are the entries of \<open>stats\<close>; \<open>progress\<close> is the
  progress bar handed to the workers (\<open>None\<close> for a bar that tests false, else the sum of
  its \<open>update\<close> calls); \<open>pool_borrows\<close> and \<open>pool_returns\<close> count \<open>acquire_context\<close> and
  \<open>release_context\<close>; \<open>scheduled\<close> lists the worker tasks created by \<open>process_batch\<close>.
\<close>

record scanner =
  running :: bool
  json_output :: bool
  payloads :: "string list"
  payloads_tested :: nat
  successful_payloads :: nat
  failed_payloads :: nat
  errors :: nat
  results :: "string list"
  json_results :: "finding list"
  progress :: "nat option"
  pool_borrows :: nat
  pool_returns :: nat
  tested_parameters :: "string set"
  scheduled :: "(string \<times> string) list"

text \<open>\<open>XSSScanner.__init__\<close>, with the payload list that \<open>load_files\<close> stores afterwards.\<close>

definition XSSScanner_init :: "bool \<Rightarrow> string list \<Rightarrow> scanner" where
  "XSSScanner_init json ps =
     \<lparr>running = True, json_output = json, payloads = ps, payloads_tested = 0,
      successful_payloads = 0, failed_payloads = 0, errors = 0, results = [],
      json_results = [], progress = Some 0, pool_borrows = 0, pool_returns = 0,
      tested_parameters = {}, scheduled = []\<rparr>"

text \<open>\<open>XSSScanner.stop\<close>.\<close>

definition stop :: "scanner \<Rightarrow> scanner" where
  "stop st = st\<lparr>running := False\<rparr>"

text \<open>\<open>if progress_bar: progress_bar.update(k)\<close>.\<close>

definition update_progress :: "nat \<Rightarrow> scanner \<Rightarrow> scanner" where
  "update_progress k st = st\<lparr>progress := map_option (\<lambda>n. n + k) (progress st)\<rparr>"

definition acquire_context :: "scanner \<Rightarrow> scanner" where
  "acquire_context st = st\<lparr>pool_borrows := pool_borrows st + 1\<rparr>"

definition release_context :: "scanner \<Rightarrow> scanner" where
  "release_context st = st\<lparr>pool_returns := pool_returns st + 1\<rparr>"


section \<open>Alert validator\<close>

text \<open>
  What one call of \<open>validate_alert\<close> observes of the target and the browser:
  \<^item> \<open>raised\<close>: an exception left the \<open>try\<close> block (fetch, navigation or probe failed);
  \<^item> \<open>is_reflected\<close>: the value of \<open>is_reflected\<close> after the reflection tests on the body;
  \<^item> \<open>dom_pattern\<close>: one of \<open>dom_patterns\<close> matched the body;
  \<^item> \<open>dom_modified\<close>, \<open>script_executed\<close>: the two probe flags read from the page;
  \<^item> \<open>dialog\<close>: the message of the dialog that \<open>handle_dialog\<close> accepted, if one fired.
\<close>

record alert_obs =
  raised :: bool
  is_reflected :: bool
  dom_pattern :: bool
  dom_modified :: bool
  script_executed :: bool
  dialog :: "string option"

text \<open>
  The value of \<open>dom_detected\<close> when the classification starts: set by the pattern loop,
  then passed through the probe block, which runs only when it is already true.
\<close>

definition dom_detected :: "alert_obs \<Rightarrow> bool" where
  "dom_detected ob =
     (let d = dom_pattern ob in
      if d then (if dom_modified ob \<or> script_executed ob then True else d) else d)"

text \<open>Lines 1219 to 1229: \<open>xss_type\<close> starts as \<open>'unknown'\<close> and is set only after a dialog.\<close>

definition classify :: "bool \<Rightarrow> bool \<Rightarrow> bool \<Rightarrow> string" where
  "classify alert_triggered reflected dom_found =
     (if alert_triggered then
        (if reflected \<and> dom_found then ''both''
         else if reflected then ''reflected''
         else if dom_found then ''dom''
         else ''reflected'')
      else ''unknown'')"

definition validate_alert ::
  "alert_obs \<Rightarrow> scanner \<Rightarrow> scanner \<times> bool \<times> string option \<times> string" where
  "validate_alert ob st =
     (if raised ob then (st\<lparr>errors := errors st + 1\<rparr>, False, None, ''reflected'')
      else
        let alert_triggered = (dialog ob \<noteq> None);
            alert_text = dialog ob
        in (st, alert_triggered, alert_text,
            classify alert_triggered (is_reflected ob) (dom_detected ob)))"


section \<open>Result sink\<close>

text \<open>
  \<open>record_vulnerability\<close>; \<open>now\<close> is the formatted clock reading. The notification it
  sends first is \<open>send_telegram_notification\<close> below, which changes no scanner field.
\<close>

definition show_opt :: "string option \<Rightarrow> string" where
  "show_opt v = (case v of None \<Rightarrow> ''None'' | Some s \<Rightarrow> s)"

definition record_vulnerability ::
  "string \<Rightarrow> string \<Rightarrow> string \<Rightarrow> string \<Rightarrow> string \<Rightarrow> string option \<Rightarrow> string
     \<Rightarrow> scanner \<Rightarrow> scanner" where
  "record_vulnerability now dmn param pl u text xss_type st =
     (let result = \<lparr>timestamp = now, domain = dmn, parameter = param, payload = pl,
                     url = u, alert_text = text, ftype = xss_type\<rparr>
      in if json_output st then st\<lparr>json_results := json_results st @ [result]\<rparr>
         else st\<lparr>results := results st @
                [''XSS Found: '',
                 ''Type: '' @ capitalize xss_type @ '' XSS'',
                 ''Domain: '' @ dmn,
                 ''Parameter: '' @ param,
                 ''Payload: '' @ pl,
                 ''URL: '' @ u,
                 ''Alert Text: '' @ show_opt text,
                 '''']\<rparr>)"


section \<open>Worker: one parameter against the payload list\<close>

text \<open>
  What the target does when one payload is tried:
  \<^item> \<open>get_result\<close>: status and body of the first GET, \<open>None\<close> when the request raises;
  \<^item> \<open>potential_dom\<close>: the answer of \<open>quick_dom_check\<close> on that body;
  \<^item> \<open>obs\<close>: what \<open>validate_alert\<close> observes;
  \<^item> \<open>log_ok\<close>: whether appending to the error log succeeds in the exception handler;
  \<^item> \<open>stop_called\<close>: whether another task calls \<open>stop\<close> while this attempt is suspended
    in one of its \<open>await\<close>s;
  \<^item> \<open>stamp\<close>: the clock reading used if a finding is recorded.
\<close>

record attempt =
  get_result :: "(nat \<times> string) option"
  potential_dom :: bool
  obs :: alert_obs
  log_ok :: bool
  stop_called :: bool
  stamp :: string

datatype flow = Continue | Break | Escaped

text \<open>
  The inner \<open>except Exception\<close> handler: count the error, advance the bar, append to the
  error log. When the append itself fails the exception leaves the loop (\<open>Escaped\<close>).
\<close>

definition on_error :: "attempt \<Rightarrow> scanner \<Rightarrow> flow \<times> scanner" where
  "on_error a st =
     (let st' = update_progress 1 (st\<lparr>errors := errors st + 1\<rparr>)
      in if log_ok a then (Continue, st') else (Escaped, st'))"

text \<open>
  One iteration of the \<open>for payload in self.payloads\<close> loop. \<open>build\<close> is the injected URL
  for a payload (\<open>urlunparse\<close> of the query rebuilt by \<open>urlencode\<close>); \<open>dmn\<close> is the netloc of
  the URL. Waiting for the rate limiter changes no scanner field and is modelled apart.
\<close>

definition process_payload ::
  "(string \<Rightarrow> string) \<Rightarrow> string \<Rightarrow> string \<Rightarrow> string \<Rightarrow> attempt \<Rightarrow> scanner
     \<Rightarrow> flow \<times> scanner" where
  "process_payload build dmn param pl a st =
     (if \<not> running st then (Break, st)
      else
        let test_url = build pl;
            st1 = st\<lparr>payloads_tested := payloads_tested st + 1\<rparr>
        in case get_result a of
             None \<Rightarrow> on_error a st1
           | Some (status, response_text) \<Rightarrow>
               if status \<noteq> 200 then (Continue, update_progress 1 st1)
               else
                 let reflected = contains response_text pl;
                     pdom = potential_dom a
                 in if \<not> reflected \<and> \<not> pdom then
                      (Continue,
                       update_progress 1 (st1\<lparr>failed_payloads := failed_payloads st1 + 1\<rparr>))
                    else
                      let st2 = acquire_context st1;
                          (st3, alert_triggered, text, xss_type) = validate_alert (obs a) st2
                      in if alert_triggered then
                           let st4 = st3\<lparr>successful_payloads := successful_payloads st3 + 1\<rparr>;
                               type_label = (if xss_type = ''dom'' then ''DOM Based''
                                             else ''Reflected'');
                               st5 = record_vulnerability (stamp a) dmn param pl test_url
                                       text type_label st4
                           in case index_of (payloads st5) pl of
                                None \<Rightarrow> on_error a (release_context st5)
                              | Some i \<Rightarrow>
                                  (Break,
                                   release_context
                                     (update_progress
                                        (1 + (length (payloads st5) - (i + 1))) st5))
                         else
                           (Continue,
                            release_context
                              (update_progress 1
                                 (st3\<lparr>failed_payloads := failed_payloads st3 + 1\<rparr>))))"

text \<open>
  The loop. The flag \<open>self.running\<close> is read again at every loop head; between two heads
  the worker is suspended and another task may have called \<open>stop\<close>. (\<open>process_payload\<close> is
  one iteration together with its head, so the test of the flag stands there as well.)
\<close>

definition after_attempt :: "attempt \<Rightarrow> scanner \<Rightarrow> scanner" where
  "after_attempt a st = (if stop_called a then stop st else st)"

fun payload_loop ::
  "(string \<Rightarrow> string) \<Rightarrow> string \<Rightarrow> string \<Rightarrow> (string \<Rightarrow> attempt) \<Rightarrow> string list
     \<Rightarrow> scanner \<Rightarrow> flow \<times> scanner" where
  "payload_loop build dmn param env [] st = (Continue, st)"
| "payload_loop build dmn param env (pl # pls) st =
     (if \<not> running st then (Break, st)
      else
        case process_payload build dmn param pl (env pl) st of
          (Continue, st') \<Rightarrow> payload_loop build dmn param env pls (after_attempt (env pl) st')
        | (Break, st') \<Rightarrow> (Break, after_attempt (env pl) st')
        | (Escaped, st') \<Rightarrow> (Escaped, after_attempt (env pl) st'))"

text \<open>
  \<open>process_parameter_payloads\<close>: the loop over \<open>self.payloads\<close>, and the outer handler
  that advances the bar by \<open>len(self.payloads)\<close> when an exception leaves the loop.
\<close>

definition process_parameter_payloads ::
  "(string \<Rightarrow> string) \<Rightarrow> string \<Rightarrow> string \<Rightarrow> (string \<Rightarrow> attempt) \<Rightarrow> scanner \<Rightarrow> scanner" where
  "process_parameter_payloads build dmn param env st =
     (case payload_loop build dmn param env (payloads st) st of
        (Escaped, st') \<Rightarrow> update_progress (length (payloads st')) st'
      | (_, st') \<Rightarrow> st')"


section \<open>Notification adapter\<close>

text \<open>
  The text that \<open>send_telegram_notification\<close> puts into the request: the five chained
  \<open>replace\<close> calls of lines 887 to 891, in the order of the source.
\<close>

definition telegram_text :: "string \<Rightarrow> string" where
  "telegram_text message =
     replace (CHR 0x27) ''&#39;''
       (replace (CHR 0x22) ''&quot;''
          (replace (CHR ''&'') ''&amp;''
             (replace (CHR ''>'') ''&gt;''
                (replace (CHR ''<'') ''&lt;'' message))))"

text \<open>
  \<open>send_telegram_notification\<close>: nothing is sent unless notifications are enabled and both
  the token and the chat identifier are set; otherwise the result is the \<open>text\<close> field of
  the posted body.
\<close>

definition send_telegram_notification ::
  "bool \<Rightarrow> string \<Rightarrow> string \<Rightarrow> string \<Rightarrow> string option" where
  "send_telegram_notification enabled token chat_id message =
     (if enabled \<and> token \<noteq> [] \<and> chat_id \<noteq> [] then Some (telegram_text message)
      else None)"

text \<open>
  The standard HTML escaping (\<open>html.escape\<close> with quotes): every character is looked at
  once and replaced by its entity.
\<close>

definition html_escape_char :: "char \<Rightarrow> string" where
  "html_escape_char c =
     (if c = CHR ''&'' then ''&amp;''
      else if c = CHR ''<'' then ''&lt;''
      else if c = CHR ''>'' then ''&gt;''
      else if c = CHR 0x22 then ''&quot;''
      else if c = CHR 0x27 then ''&#39;''
      else [c])"

definition html_escape :: "string \<Rightarrow> string" where
  "html_escape s = concat (map html_escape_char s)"


section \<open>Rate limiter\<close>

text \<open>
  \<open>RateLimiter\<close>. Clock readings, token counts and sleep durations are Python floats in
  the source; they are modelled as exact rationals, so the arithmetic below is the
  arithmetic the source writes down, without rounding.
\<close>

record rate_limiter =
  rate_limit :: int
  tokens :: rat
  last_update :: rat
  sleep_time :: rat

text \<open>\<open>RateLimiter.__init__\<close>; \<open>now\<close> is the reading of \<open>time.time()\<close>.\<close>

definition RateLimiter_init :: "int \<Rightarrow> rat \<Rightarrow> rate_limiter" where
  "RateLimiter_init r now =
     \<lparr>rate_limit = r, tokens = of_int r, last_update = now,
      sleep_time = (if r > 0 then 1 / of_int r else 0)\<rparr>"

text \<open>
  \<open>RateLimiter.acquire\<close>, the body run while the lock is held. \<open>now\<close> is the reading of
  \<open>time.time()\<close> on entry. The result is the new state and the duration handed to
  \<open>asyncio.sleep\<close> (\<open>None\<close> when the call does not sleep).
\<close>

definition acquire :: "rat \<Rightarrow> rate_limiter \<Rightarrow> rate_limiter \<times> rat option" where
  "acquire now l =
     (let time_passed = now - last_update l;
          l1 = l\<lparr>tokens := min (of_int (rate_limit l))
                               (tokens l + time_passed * of_int (rate_limit l))\<rparr>;
          l2 = l1\<lparr>last_update := now\<rparr>;
          l3 = (if tokens l2 < 1 then l2\<lparr>tokens := 1\<rparr> else l2);
          slept = (if tokens l2 < 1 then Some (sleep_time l2) else None)
      in (l3\<lparr>tokens := tokens l3 - 1\<rparr>, slept))"

text \<open>\<open>RateLimiter.reset\<close>.\<close>

definition reset :: "rat \<Rightarrow> rate_limiter \<Rightarrow> rate_limiter" where
  "reset now l = l\<lparr>tokens := of_int (rate_limit l), last_update := now\<rparr>"

text \<open>
  A caller that acquires again and again. Each element of the list is the time the caller
  lets pass between the return of one call and the clock reading of the next; a call that
  sleeps returns after exactly the duration it asked for. The result lists the times at
  which the calls return.
\<close>

fun acquire_times :: "rat list \<Rightarrow> rat \<Rightarrow> rate_limiter \<Rightarrow> rat list" where
  "acquire_times [] clock l = []"
| "acquire_times (gap # gaps) clock l =
     (let now = clock + gap;
          finished = (case snd (acquire now l) of None \<Rightarrow> now | Some d \<Rightarrow> now + d)
      in finished # acquire_times gaps finished (fst (acquire now l)))"


section \<open>URL handling\<close>

subsection \<open>Library: percent decoding and query parsing\<close>

text \<open>
  \<open>urllib.parse.unquote\<close>: a \<open>%\<close> followed by two hexadecimal digits becomes the byte they
  denote, any other \<open>%\<close> stays. CPython then decodes the bytes as UTF-8 and puts U+FFFD
  for sequences that are not UTF-8; on the bytes the model differs only there.
\<close>

definition hexbits :: "char \<Rightarrow> (bool \<times> bool \<times> bool \<times> bool) option" where
  "hexbits c = map_of
     [(CHR ''0'', (False, False, False, False)), (CHR ''1'', (True, False, False, False)),
      (CHR ''2'', (False, True, False, False)), (CHR ''3'', (True, True, False, False)),
      (CHR ''4'', (False, False, True, False)), (CHR ''5'', (True, False, True, False)),
      (CHR ''6'', (False, True, True, False)), (CHR ''7'', (True, True, True, False)),
      (CHR ''8'', (False, False, False, True)), (CHR ''9'', (True, False, False, True)),
      (CHR ''a'', (False, True, False, True)), (CHR ''b'', (True, True, False, True)),
      (CHR ''c'', (False, False, True, True)), (CHR ''d'', (True, False, True, True)),
      (CHR ''e'', (False, True, True, True)), (CHR ''f'', (True, True, True, True)),
      (CHR ''A'', (False, True, False, True)), (CHR ''B'', (True, True, False, True)),
      (CHR ''C'', (False, False, True, True)), (CHR ''D'', (True, False, True, True)),
      (CHR ''E'', (False, True, True, True)), (CHR ''F'', (True, True, True, True))] c"

fun unquote :: "string \<Rightarrow> string" where
  "unquote [] = []"
| "unquote (c # cs) =
     (if c = CHR ''%'' then
        (case cs of
           h # l # rest \<Rightarrow>
             (case (hexbits h, hexbits l) of
                (Some (h0, h1, h2, h3), Some (l0, l1, l2, l3)) \<Rightarrow>
                  Char l0 l1 l2 l3 h0 h1 h2 h3 # unquote rest
              | _ \<Rightarrow> c # unquote cs)
         | _ \<Rightarrow> c # unquote cs)
      else c # unquote cs)"

text \<open>\<open>unquote_plus\<close>: plus signs become spaces first.\<close>

definition unquote_plus :: "string \<Rightarrow> string" where
  "unquote_plus s = unquote (replace (CHR ''+'') '' '' s)"

text \<open>
  The keys of \<open>parse_qs(qs, keep_blank_values=True)\<close>, in the order of the dict: every
  non-empty field of \<open>qs.split('&')\<close> contributes the decoded text before its first \<open>=\<close>
  (the whole field when it has none).
\<close>

definition parse_qs_names :: "string \<Rightarrow> string list" where
  "parse_qs_names qs =
     dict_keys (map (\<lambda>nv. unquote_plus (hd (split_on (CHR ''='') nv)))
                    (filter (\<lambda>nv. nv \<noteq> []) (split_on (CHR ''&'') qs)))"

subsection \<open>Library: urlsplit and urlparse\<close>

record parse_result =
  scheme :: string
  netloc :: string
  path :: string
  params :: string
  query :: string
  fragment :: string

definition c0_or_space :: "char \<Rightarrow> bool" where
  "c0_or_space c = ((of_char c :: nat) \<le> 32)"

definition unsafe_byte :: "char \<Rightarrow> bool" where
  "unsafe_byte c = (c = CHR 0x09 \<or> c = CHR 0x0D \<or> c = CHR 0x0A)"

definition ascii_alpha :: "char \<Rightarrow> bool" where
  "ascii_alpha c =
     (c \<in> set ''abcdefghijklmnopqrstuvwxyzABCDEFGHIJKLMNOPQRSTUVWXYZ'')"

definition scheme_char :: "char \<Rightarrow> bool" where
  "scheme_char c =
     (c \<in> set ''abcdefghijklmnopqrstuvwxyzABCDEFGHIJKLMNOPQRSTUVWXYZ0123456789+-.'')"

definition netloc_end :: "char \<Rightarrow> bool" where
  "netloc_end c = (c = CHR ''/'' \<or> c = CHR ''?'' \<or> c = CHR ''#'')"

text \<open>\<open>s[:i]\<close> and \<open>s[i+1:]\<close> for \<open>i\<close> the first position of \<open>c\<close> in \<open>s\<close>.\<close>

definition before :: "char \<Rightarrow> string \<Rightarrow> string" where
  "before c s = takeWhile (\<lambda>x. x \<noteq> c) s"

definition after :: "char \<Rightarrow> string \<Rightarrow> string" where
  "after c s = tl (dropWhile (\<lambda>x. x \<noteq> c) s)"

text \<open>
  \<open>urllib.parse.urlsplit\<close> (CPython 3.11), stage by stage. First the leading C0 control
  and space characters are stripped and every tab, carriage return and line feed is
  removed.
\<close>

definition clean_url :: "string \<Rightarrow> string" where
  "clean_url url0 = filter (\<lambda>c. \<not> unsafe_byte c) (dropWhile c0_or_space url0)"

text \<open>
  The scheme: the text before the first colon, when it is not empty, starts with an
  ASCII letter and holds scheme characters only; it is lowercased. The result is the
  scheme and the rest of the URL.
\<close>

definition has_scheme :: "string \<Rightarrow> bool" where
  "has_scheme url1 =
     (CHR '':'' \<in> set url1 \<and> before (CHR '':'') url1 \<noteq> [] \<and> ascii_alpha (hd url1)
      \<and> list_all scheme_char (before (CHR '':'') url1))"

definition split_scheme :: "string \<Rightarrow> string \<times> string" where
  "split_scheme url1 =
     (if has_scheme url1 then (lower (before (CHR '':'') url1), after (CHR '':'') url1)
      else ([], url1))"

text \<open>The netloc (\<open>_splitnetloc\<close>): after a leading \<open>//\<close>, up to the first of \<open>/ ? #\<close>.\<close>

definition split_netloc :: "string \<Rightarrow> string \<times> string" where
  "split_netloc url2 =
     (if take 2 url2 = ''//''
      then (takeWhile (\<lambda>c. \<not> netloc_end c) (drop 2 url2),
            dropWhile (\<lambda>c. \<not> netloc_end c) (drop 2 url2))
      else ([], url2))"

text \<open>The fragment is cut at the first \<open>#\<close>, then the query at the first \<open>?\<close>.\<close>

definition split_fragment :: "string \<Rightarrow> string \<times> string" where
  "split_fragment url3 =
     (if CHR ''#'' \<in> set url3 then (before (CHR ''#'') url3, after (CHR ''#'') url3)
      else (url3, []))"

definition split_query :: "string \<Rightarrow> string \<times> string" where
  "split_query url4 =
     (if CHR ''?'' \<in> set url4 then (before (CHR ''?'') url4, after (CHR ''?'') url4)
      else (url4, []))"

text \<open>
  \<open>None\<close> stands for the \<open>ValueError\<close> of the library. It raises on a netloc with one
  bracket but not the other, and when one of its two validations of an accepted netloc
  fails (\<open>_check_bracketed_host\<close> on a bracketed host, the NFKC test of \<open>_checknetloc\<close> on a
  netloc that is not ASCII). The validations are the parameter \<open>ok\<close>; the theorems hold
  for every such predicate.
\<close>

definition bad_netloc :: "(string \<Rightarrow> bool) \<Rightarrow> string \<Rightarrow> bool" where
  "bad_netloc ok nl =
     ((CHR ''['' \<in> set nl \<and> CHR '']'' \<notin> set nl)
      \<or> (CHR '']'' \<in> set nl \<and> CHR ''['' \<notin> set nl)
      \<or> (nl \<noteq> [] \<and> \<not> ok nl))"

definition urlsplit :: "(string \<Rightarrow> bool) \<Rightarrow> string \<Rightarrow> parse_result option" where
  "urlsplit ok url0 =
     (let url1 = clean_url url0;
          sch = fst (split_scheme url1);
          url2 = snd (split_scheme url1);
          nl = fst (split_netloc url2);
          url3 = snd (split_netloc url2)
      in if bad_netloc ok nl then None
         else
           let url4 = fst (split_fragment url3);
               frg = snd (split_fragment url3);
               url5 = fst (split_query url4);
               qry = snd (split_query url4)
           in Some \<lparr>scheme = sch, netloc = nl, path = url5, params = [], query = qry,
                    fragment = frg\<rparr>)"

definition uses_params :: "string list" where
  "uses_params = [[], ''ftp'', ''hdl'', ''prospero'', ''http'', ''imap'', ''https'',
                  ''shttp'', ''rtsp'', ''rtsps'', ''rtspu'', ''sip'', ''sips'', ''mms'',
                  ''sftp'', ''tel'']"

text \<open>\<open>_splitparams\<close>, called on a path that contains a semicolon.\<close>

definition splitparams :: "string \<Rightarrow> string \<times> string" where
  "splitparams u =
     (if CHR ''/'' \<in> set u then
        (let seg = rev (before (CHR ''/'') (rev u));
             dir = rev (dropWhile (\<lambda>x. x \<noteq> CHR ''/'') (rev u))
         in if CHR '';'' \<in> set seg then (dir @ before (CHR '';'') seg, after (CHR '';'') seg)
            else (u, []))
      else (before (CHR '';'') u, after (CHR '';'') u))"

definition urlparse :: "(string \<Rightarrow> bool) \<Rightarrow> string \<Rightarrow> parse_result option" where
  "urlparse ok u =
     (case urlsplit ok u of
        None \<Rightarrow> None
      | Some r \<Rightarrow>
          if scheme r \<in> set uses_params \<and> CHR '';'' \<in> set (path r) then
            Some (r\<lparr>path := fst (splitparams (path r)), params := snd (splitparams (path r))\<rparr>)
          else Some r)"

subsection \<open>URL normaliser\<close>

text \<open>
  \<open>validate_url\<close>. The indexing \<open>split(...)[1]\<close> is guarded by the membership tests
  before it, so no branch of the function raises.
\<close>

definition named_param :: "string \<Rightarrow> bool" where
  "named_param param =
     (param \<noteq> [] \<and> CHR ''='' \<in> set param \<and> hd (split_on (CHR ''='') param) \<noteq> [])"

definition validate_url :: "string \<Rightarrow> bool" where
  "validate_url u =
     (let decoded_url = unquote u in
      if \<not> (startswith decoded_url ''http://'' \<or> startswith decoded_url ''https://'')
      then False
      else if CHR ''?'' \<notin> set decoded_url then False
      else
        let query_part =
              (if CHR ''#'' \<in> set decoded_url
                  \<and> CHR ''?'' \<in> set (split_on (CHR ''#'') decoded_url ! 1)
               then split_on (CHR ''?'') (split_on (CHR ''#'') decoded_url ! 1) ! 1
               else split_on (CHR ''?'') decoded_url ! 1)
        in list_ex named_param (split_on (CHR ''&'') query_part))"

text \<open>
  \<open>get_url_signature\<close>. When \<open>urlparse\<close> raises, the handler returns the URL unchanged.
\<close>

definition signature_query :: "string \<Rightarrow> parse_result \<Rightarrow> string" where
  "signature_query u parsed =
     (if CHR ''#'' \<in> set u \<and> CHR ''?'' \<in> set (split_on (CHR ''#'') u ! 1)
      then split_on (CHR ''?'') (split_on (CHR ''#'') u ! 1) ! 1
      else query parsed)"

definition signature_params :: "string \<Rightarrow> string list" where
  "signature_params qry =
     (if qry \<noteq> [] then
        map (\<lambda>param. hd (split_on (CHR ''='') param) @ ''='')
            (filter (\<lambda>param. CHR ''='' \<in> set param \<and> hd (split_on (CHR ''='') param) \<noteq> [])
                    (split_on (CHR ''&'') qry))
      else [])"

definition get_url_signature :: "(string \<Rightarrow> bool) \<Rightarrow> string \<Rightarrow> string" where
  "get_url_signature ok u =
     (case urlparse ok u of
        None \<Rightarrow> u
      | Some parsed \<Rightarrow>
          let ps = signature_params (signature_query u parsed);
              base = scheme parsed @ ''://'' @ netloc parsed @ path parsed
          in if ps \<noteq> [] then base @ ''?'' @ join (CHR ''&'') ps else base)"

text \<open>
  The URL loop of \<open>load_files\<close> (lines 1713 to 1726) over the stripped non-empty lines,
  and its result: \<open>None\<close> when the function exits because no URL is valid.
\<close>

fun collect_urls ::
  "(string \<Rightarrow> bool) \<Rightarrow> string list \<Rightarrow> string list \<Rightarrow> string set \<Rightarrow> nat
     \<Rightarrow> string list \<times> nat" where
  "collect_urls ok [] valid_urls seen skipped = (valid_urls, skipped)"
| "collect_urls ok (u # us) valid_urls seen skipped =
     (if validate_url u then
        (if get_url_signature ok u \<in> seen then collect_urls ok us valid_urls seen (skipped + 1)
         else collect_urls ok us (valid_urls @ [u]) (insert (get_url_signature ok u) seen)
                skipped)
      else collect_urls ok us valid_urls seen skipped)"

definition load_files :: "(string \<Rightarrow> bool) \<Rightarrow> string list \<Rightarrow> string list option" where
  "load_files ok all_urls =
     (let valid_urls = fst (collect_urls ok all_urls [] {} 0)
      in if valid_urls = [] then None else Some valid_urls)"

text \<open>
  The parameters \<open>load_files\<close> counts for a kept URL (lines 1753 to 1776), whose number it
  stores in \<open>stats['parameters_tested']\<close> and multiplies by the number of payloads for the
  total of the progress bar: the names of the fields \<open>name=\<dots>\<close> with a name, in the query
  or, when the text behind the first \<open>#\<close> holds a \<open>?\<close>, in the query behind the fragment.
\<close>

definition counted_names :: "string \<Rightarrow> string list" where
  "counted_names u =
     (let decoded_url = unquote u;
          query_part =
            (if CHR ''#'' \<in> set decoded_url
                \<and> CHR ''?'' \<in> set (split_on (CHR ''#'') decoded_url ! 1)
             then split_on (CHR ''?'') (split_on (CHR ''#'') decoded_url ! 1) ! 1
             else if CHR ''?'' \<in> set decoded_url then split_on (CHR ''?'') decoded_url ! 1
             else [])
      in map (\<lambda>param. hd (split_on (CHR ''='') param))
             (filter named_param (split_on (CHR ''&'') query_part)))"


section \<open>Scan orchestrator\<close>

text \<open>
  \<open>get_parameter_context\<close>; \<open>None\<close> when \<open>urlparse\<close> raises. \<open>lc\<close> stands for \<open>str.lower\<close> on
  a parameter name; the theorems hold for every such function, and the examples use
  \<open>lower\<close> on ASCII names.
\<close>

definition context_of :: "(string \<Rightarrow> string) \<Rightarrow> parse_result \<Rightarrow> string \<Rightarrow> string" where
  "context_of lc parsed param =
     netloc parsed @ rstrip (CHR ''/'') (path parsed) @ '':'' @ lc param"

definition get_parameter_context ::
  "(string \<Rightarrow> bool) \<Rightarrow> (string \<Rightarrow> string) \<Rightarrow> string \<Rightarrow> string \<Rightarrow> string option" where
  "get_parameter_context ok lc u param =
     map_option (\<lambda>parsed. context_of lc parsed param) (urlparse ok u)"

text \<open>\<open>should_test_parameter\<close>, the body run while the lock is held.\<close>

definition should_test_parameter ::
  "(string \<Rightarrow> bool) \<Rightarrow> (string \<Rightarrow> string) \<Rightarrow> string \<Rightarrow> string \<Rightarrow> scanner
     \<Rightarrow> (bool \<times> scanner) option" where
  "should_test_parameter ok lc u param st =
     (case get_parameter_context ok lc u param of
        None \<Rightarrow> None
      | Some ctx \<Rightarrow>
          if ctx \<in> tested_parameters st then Some (False, st)
          else Some (True, st\<lparr>tested_parameters := insert ctx (tested_parameters st)\<rparr>))"

text \<open>
  The \<open>for param in params\<close> loop of \<open>process_batch\<close>: the tasks it creates, in order. An
  exception ends the loop for this URL.
\<close>

fun create_tasks ::
  "(string \<Rightarrow> bool) \<Rightarrow> (string \<Rightarrow> string) \<Rightarrow> string \<Rightarrow> string list \<Rightarrow> scanner
     \<Rightarrow> (string \<times> string) list \<times> scanner" where
  "create_tasks ok lc u [] st = ([], st)"
| "create_tasks ok lc u (param # ps) st =
     (case should_test_parameter ok lc u param st of
        None \<Rightarrow> ([], st)
      | Some (granted, st') \<Rightarrow>
          (case create_tasks ok lc u ps st' of
             (ts, st'') \<Rightarrow> (if granted then (u, param) # ts else ts, st'')))"

text \<open>
  The tasks of one URL, run to completion one after the other. \<open>build u param\<close> gives the
  injected URLs and \<open>env u param\<close> the behaviour of the target for that parameter; the
  netloc is the one \<open>process_batch\<close> has just parsed.
\<close>

fun run_tasks ::
  "(string \<Rightarrow> string \<Rightarrow> string \<Rightarrow> string) \<Rightarrow> (string \<Rightarrow> string \<Rightarrow> string \<Rightarrow> attempt)
     \<Rightarrow> string \<Rightarrow> (string \<times> string) list \<Rightarrow> scanner \<Rightarrow> scanner" where
  "run_tasks build env dmn [] st = st"
| "run_tasks build env dmn ((u, param) # ts) st =
     run_tasks build env dmn ts
       (process_parameter_payloads (build u param) dmn param (env u param) st)"

text \<open>
  \<open>process_batch\<close>: the parameter names are the keys of \<open>parse_qs\<close> on the query component
  of the parsed URL.
\<close>

fun process_batch ::
  "(string \<Rightarrow> bool) \<Rightarrow> (string \<Rightarrow> string) \<Rightarrow> (string \<Rightarrow> string \<Rightarrow> string \<Rightarrow> string)
     \<Rightarrow> (string \<Rightarrow> string \<Rightarrow> string \<Rightarrow> attempt) \<Rightarrow> string list \<Rightarrow> scanner \<Rightarrow> scanner" where
  "process_batch ok lc build env [] st = st"
| "process_batch ok lc build env (u # us) st =
     (if \<not> running st then st
      else
        case urlparse ok u of
          None \<Rightarrow> process_batch ok lc build env us st
        | Some parsed \<Rightarrow>
            (let created = create_tasks ok lc u (parse_qs_names (query parsed)) st;
                 st2 = (snd created)\<lparr>scheduled := scheduled (snd created) @ fst created\<rparr>
             in process_batch ok lc build env us
                  (run_tasks build env (netloc parsed) (fst created) st2)))"

text \<open>The batch loop of \<open>run\<close>, with \<open>URLS_BATCH_SIZE = 5\<close>.\<close>

definition URLS_BATCH_SIZE :: nat where
  "URLS_BATCH_SIZE = 5"

function run_batches ::
  "(string \<Rightarrow> bool) \<Rightarrow> (string \<Rightarrow> string) \<Rightarrow> (string \<Rightarrow> string \<Rightarrow> string \<Rightarrow> string)
     \<Rightarrow> (string \<Rightarrow> string \<Rightarrow> string \<Rightarrow> attempt) \<Rightarrow> string list \<Rightarrow> scanner \<Rightarrow> scanner" where
  "run_batches ok lc build env urls st =
     (if urls = [] then st
      else if \<not> running st then st
      else run_batches ok lc build env (drop URLS_BATCH_SIZE urls)
             (process_batch ok lc build env (take URLS_BATCH_SIZE urls) st))"
  by pat_completeness auto
termination
  by (relation "measure (\<lambda>(ok, lc, build, env, urls, st). length urls)")
     (auto simp: URLS_BATCH_SIZE_def)

declare run_batches.simps [simp del]

text \<open>
  \<open>run\<close> on a URL list file: \<open>load_files\<close>, then the batches. \<open>None\<close> when \<open>load_files\<close>
  exits.
\<close>

definition run ::
  "(string \<Rightarrow> bool) \<Rightarrow> (string \<Rightarrow> string) \<Rightarrow> (string \<Rightarrow> string \<Rightarrow> string \<Rightarrow> string)
     \<Rightarrow> (string \<Rightarrow> string \<Rightarrow> string \<Rightarrow> attempt) \<Rightarrow> string list \<Rightarrow> scanner \<Rightarrow> scanner option" where
  "run ok lc build env all_urls st =
     map_option (\<lambda>urls. run_batches ok lc build env urls st) (load_files ok all_urls)"


section \<open>Notions used to state the properties\<close>




text \<open>
  The context of a task. The contexts that \<open>process_batch\<close> reads from a URL are those of
  the keys of \<open>parse_qs\<close> on its query component; the contexts that \<open>load_files\<close> counts
  for a URL are those of its \<open>counted_names\<close>.
\<close>

definition task_context ::
  "(string \<Rightarrow> bool) \<Rightarrow> (string \<Rightarrow> string) \<Rightarrow> string \<times> string \<Rightarrow> string option" where
  "task_context ok lc t = get_parameter_context ok lc (fst t) (snd t)"

definition read_contexts :: "(string \<Rightarrow> bool) \<Rightarrow> (string \<Rightarrow> string) \<Rightarrow> string \<Rightarrow> string set" where
  "read_contexts ok lc u =
     (case urlparse ok u of
        None \<Rightarrow> {}
      | Some parsed \<Rightarrow> context_of lc parsed ` set (parse_qs_names (query parsed)))"

definition read_contexts_of ::
  "(string \<Rightarrow> bool) \<Rightarrow> (string \<Rightarrow> string) \<Rightarrow> string list \<Rightarrow> string set" where
  "read_contexts_of ok lc urls = \<Union> (read_contexts ok lc ` set urls)"

definition counted_contexts ::
  "(string \<Rightarrow> bool) \<Rightarrow> (string \<Rightarrow> string) \<Rightarrow> string list \<Rightarrow> string option list" where
  "counted_contexts ok lc urls =
     concat (map (\<lambda>u. map (get_parameter_context ok lc u) (counted_names u)) urls)"

text \<open>
  Any sequence of \<open>should_test_parameter\<close> calls, in the order in which the lock lets them
  in: the contexts for which the answer was \<open>True\<close>.
\<close>

fun grants ::
  "(string \<Rightarrow> bool) \<Rightarrow> (string \<Rightarrow> string) \<Rightarrow> (string \<times> string) list \<Rightarrow> scanner \<Rightarrow> string list" where
  "grants ok lc [] st = []"
| "grants ok lc ((u, param) # calls) st =
     (case should_test_parameter ok lc u param st of
        None \<Rightarrow> grants ok lc calls st
      | Some (granted, st') \<Rightarrow>
          (if granted then the (get_parameter_context ok lc u param) # grants ok lc calls st'
           else grants ok lc calls st'))"

text \<open>Every created task has its own context, and the contexts are the tested set.\<close>

definition sched_inv :: "(string \<Rightarrow> bool) \<Rightarrow> (string \<Rightarrow> string) \<Rightarrow> scanner \<Rightarrow> bool" where
  "sched_inv ok lc st =
     (distinct (map (task_context ok lc) (scheduled st))
      \<and> set (map (task_context ok lc) (scheduled st)) = Some ` tested_parameters st)"

text \<open>The string \<open>get_url_signature\<close> builds from a parse result and the stripped names.\<close>

definition signature_of :: "parse_result \<Rightarrow> string list \<Rightarrow> string" where
  "signature_of parsed ps =
     (if ps \<noteq> [] then scheme parsed @ ''://'' @ netloc parsed @ path parsed @ ''?''
                         @ join (CHR ''&'') ps
      else scheme parsed @ ''://'' @ netloc parsed @ path parsed)"

text \<open>A field that carries an equals sign.\<close>

definition has_eq :: "string \<Rightarrow> bool" where
  "has_eq item = (CHR ''='' \<in> set item)"

text \<open>
  Two lists of query fields carry the same names in the same order when they agree, field
  by field, on the text before the first \<open>=\<close> and on whether there is an \<open>=\<close>: the values
  are free, a field without \<open>=\<close> is the same in both.
\<close>

definition same_names :: "string list \<Rightarrow> string list \<Rightarrow> bool" where
  "same_names items1 items2 =
     (map (\<lambda>i. (has_eq i, before (CHR ''='') i)) items1
      = map (\<lambda>i. (has_eq i, before (CHR ''='') i)) items2)"

text \<open>
  A URL whose fields are in its query component: \<open>pre\<close>, a question mark, the fields
  joined by \<open>&\<close>, and \<open>rest\<close>, which is empty or a fragment with its \<open>#\<close>.
\<close>

definition query_url :: "string \<Rightarrow> string list \<Rightarrow> string \<Rightarrow> string" where
  "query_url pre items rest = pre @ CHR ''?'' # join (CHR ''&'') items @ rest"

definition query_shape :: "string \<Rightarrow> string list \<Rightarrow> string \<Rightarrow> bool" where
  "query_shape pre items rest =
     (CHR ''?'' \<notin> set pre \<and> CHR ''#'' \<notin> set pre
      \<and> list_all (\<lambda>i. CHR ''&'' \<notin> set i \<and> CHR ''#'' \<notin> set i) items
      \<and> (rest = [] \<or> hd rest = CHR ''#''))"

text \<open>
  A URL whose fields are behind the fragment, as \<open>validate_url\<close>, \<open>get_url_signature\<close> and
  \<open>load_files\<close> read them: \<open>pre\<close>, the first \<open>#\<close>, the text \<open>mid\<close> up to the first question
  mark behind it, the fields joined by \<open>&\<close>, and \<open>rest\<close>, which is empty or starts with the
  next \<open>#\<close> or the next question mark.
\<close>

definition fragment_url :: "string \<Rightarrow> string \<Rightarrow> string list \<Rightarrow> string \<Rightarrow> string" where
  "fragment_url pre mid items rest =
     pre @ CHR ''#'' # mid @ CHR ''?'' # join (CHR ''&'') items @ rest"

definition fragment_shape :: "string \<Rightarrow> string \<Rightarrow> string list \<Rightarrow> string \<Rightarrow> bool" where
  "fragment_shape pre mid items rest =
     (CHR ''#'' \<notin> set pre \<and> CHR ''#'' \<notin> set mid \<and> CHR ''?'' \<notin> set mid
      \<and> list_all (\<lambda>i. CHR ''&'' \<notin> set i \<and> CHR ''#'' \<notin> set i \<and> CHR ''?'' \<notin> set i) items
      \<and> (rest = [] \<or> hd rest = CHR ''#'' \<or> hd rest = CHR ''?''))"

text \<open>Concrete targets for the examples below.\<close>

definition obs_both :: alert_obs where
  "obs_both = \<lparr>raised = False, is_reflected = True, dom_pattern = True, dom_modified = True,
               script_executed = False, dialog = Some ''1''\<rparr>"

definition obs_quiet :: alert_obs where
  "obs_quiet = \<lparr>raised = False, is_reflected = False, dom_pattern = False,
                dom_modified = False, script_executed = False, dialog = None\<rparr>"

definition attempt_both :: attempt where
  "attempt_both = \<lparr>get_result = Some (200, ''<div><p></div>''), potential_dom = True,
                    obs = obs_both, log_ok = True, stop_called = False,
                    stamp = ''2024-01-01 00:00:00''\<rparr>"

definition attempt_404 :: attempt where
  "attempt_404 = \<lparr>get_result = Some (404, ''Not Found''), potential_dom = False,
                   obs = obs_quiet, log_ok = True, stop_called = False,
                   stamp = ''2024-01-01 00:00:00''\<rparr>"

definition attempt_plain :: attempt where
  "attempt_plain = \<lparr>get_result = Some (200, ''<html></html>''), potential_dom = False,
                     obs = obs_quiet, log_ok = True, stop_called = False,
                     stamp = ''2024-01-01 00:00:00''\<rparr>"




definition build_q :: "string \<Rightarrow> string" where
  "build_q pl = ''http://t/x?q='' @ pl"

definition any_netloc :: "string \<Rightarrow> bool" where
  "any_netloc nl = True"

definition two_urls :: "string list" where
  "two_urls = [''http://a/#/x?u=1'', ''https://B/y/?Name=1&flag'']"


section \<open>Alert validator: classification\<close>




lemma process_payload_no_dialog:
  assumes "dialog (obs a) = None"
  shows "results (snd (process_payload build dmn param pl a s)) = results s
       \<and> json_results (snd (process_payload build dmn param pl a s)) = json_results s"
  using assms
  by (auto simp: process_payload_def validate_alert_def on_error_def update_progress_def
        acquire_context_def release_context_def Let_def split: option.splits prod.splits)

text \<open>
  Claim C1. When \<open>validate_alert\<close> completes without an internal error, it leaves the
  scanner unchanged, reports a dialog exactly when one fired, and classifies by the three
  booleans: fired, reflected and DOM evidence give \<open>both\<close>; fired and reflected only give
  \<open>reflected\<close>; fired and DOM evidence only give \<open>dom\<close>; fired with neither gives
  \<open>reflected\<close>; and when no dialog fired the flag is false and no attempt with this
  observation adds a finding to either result buffer.
\<close>

theorem validate_alert_classification:
  assumes "\<not> raised ob"
    and "validate_alert ob st = (st', fired, msg, xss_type)"
  shows "st' = st \<and> fired = (dialog ob \<noteq> None) \<and> msg = dialog ob
       \<and> (fired \<and> is_reflected ob \<and> dom_detected ob \<longrightarrow> xss_type = ''both'')
       \<and> (fired \<and> is_reflected ob \<and> \<not> dom_detected ob \<longrightarrow> xss_type = ''reflected'')
       \<and> (fired \<and> \<not> is_reflected ob \<and> dom_detected ob \<longrightarrow> xss_type = ''dom'')
       \<and> (fired \<and> \<not> is_reflected ob \<and> \<not> dom_detected ob \<longrightarrow> xss_type = ''reflected'')
       \<and> (\<not> fired \<longrightarrow>
            (\<forall>build dmn param pl a s. obs a = ob \<longrightarrow>
               results (snd (process_payload build dmn param pl a s)) = results s
             \<and> json_results (snd (process_payload build dmn param pl a s)) = json_results s))"
proof -
  from assms have st: "st' = st" and f: "fired = (dialog ob \<noteq> None)" and t: "msg = dialog ob"
    and x: "xss_type = classify fired (is_reflected ob) (dom_detected ob)"
    by (auto simp: validate_alert_def Let_def)
  have none: "\<not> fired \<longrightarrow>
            (\<forall>build dmn param pl a s. obs a = ob \<longrightarrow>
               results (snd (process_payload build dmn param pl a s)) = results s
             \<and> json_results (snd (process_payload build dmn param pl a s)) = json_results s)"
    using f process_payload_no_dialog by blast
  show ?thesis
    using st f t none by (simp add: x classify_def)
qed

theorem validate_alert_classification_witness:
  "validate_alert obs_both (XSSScanner_init True [])
     = (XSSScanner_init True [], True, Some ''1'', ''both'')"
proof -
  have r: "\<not> raised obs_both" by (simp add: obs_both_def)
  obtain st' fired msg xss_type where
    v: "validate_alert obs_both (XSSScanner_init True []) = (st', fired, msg, xss_type)"
    by (cases "validate_alert obs_both (XSSScanner_init True [])") auto
  from validate_alert_classification [OF r v]
  have "st' = XSSScanner_init True []" and "fired" and "msg = Some ''1''"
    and "xss_type = ''both''"
    by (simp_all add: obs_both_def dom_detected_def)
  with v show ?thesis by simp
qed


section \<open>Recorded type of a finding\<close>

text \<open>
  Claim C2. The target reflects the payload, the page shows DOM evidence and the dialog
  fires, so \<open>validate_alert\<close> returns \<open>both\<close>. The worker passes its display label to
  \<open>record_vulnerability\<close>, not the value the validator returned: the structured record
  carries the type \<open>Reflected\<close>, and the text sink the line \<open>Type: Reflected XSS\<close>.
\<close>

theorem both_recorded_as_reflected:
  "snd (snd (snd (validate_alert (obs attempt_both) (XSSScanner_init True [''<p>''])))) = ''both''
   \<and> map ftype (json_results (process_parameter_payloads build_q ''t'' ''q'' (\<lambda>pl. attempt_both)
         (XSSScanner_init True [''<p>'']))) = [''Reflected'']
   \<and> results (process_parameter_payloads build_q ''t'' ''q'' (\<lambda>pl. attempt_both)
         (XSSScanner_init False [''<p>''])) ! 1 = ''Type: Reflected XSS''"
  by (simp add: process_parameter_payloads_def process_payload_def attempt_both_def obs_both_def
        XSSScanner_init_def update_progress_def validate_alert_def classify_def dom_detected_def
        acquire_context_def release_context_def record_vulnerability_def capitalize_def
        ascii_upper_def lower_def ascii_lower_def build_q_def show_opt_def after_attempt_def)


section \<open>Worker: attempts and progress\<close>




lemma after_attempt_keeps:
  "payloads_tested (after_attempt a st) = payloads_tested st"
  "progress (after_attempt a st) = progress st"
  "payloads (after_attempt a st) = payloads st"
  "tested_parameters (after_attempt a st) = tested_parameters st"
  "scheduled (after_attempt a st) = scheduled st"
  "\<not> stop_called a \<Longrightarrow> after_attempt a st = st"
  by (simp_all add: after_attempt_def stop_def)






section \<open>Worker: an attempt that is answered with a status other than 200\<close>

text \<open>
  Claim C5. The target answers 404. The attempt produces no finding, counts in
  \<open>payloads_tested\<close>, borrows no page, advances progress by 1 and lets the loop continue;
  but \<open>failed_payloads\<close> stays at 0: the branch leaves before the counter is touched,
  while the two sibling branches (no hint, no dialog) increment it.
\<close>

theorem non200_leaves_failed_payloads:
  "process_payload build_q ''t'' ''q'' ''<p>'' attempt_404 (XSSScanner_init False [''<p>''])
     = (Continue, (XSSScanner_init False [''<p>''])\<lparr>payloads_tested := 1, progress := Some 1\<rparr>)
   \<and> failed_payloads (snd (process_payload build_q ''t'' ''q'' ''<p>'' attempt_404
         (XSSScanner_init False [''<p>'']))) = 0
   \<and> failed_payloads (snd (process_payload build_q ''t'' ''q'' ''<p>'' attempt_plain
         (XSSScanner_init False [''<p>'']))) = 1"
  by (simp add: process_payload_def attempt_404_def attempt_plain_def XSSScanner_init_def
        update_progress_def)


section \<open>Rate limiter\<close>

text \<open>
  Claim C6. For a limiter built with a positive rate \<open>r\<close>, in any state of its token count
  and epoch: \<open>acquire\<close> refills by the elapsed time times \<open>r\<close>, capped at \<open>r\<close>, and sets the
  epoch to the clock reading; when the refilled count is below one it sleeps \<open>1 / r\<close> and
  sets the count to 1; then it debits one token. \<open>reset\<close> restores the count to \<open>r\<close> and
  sets the epoch.
\<close>

theorem acquire_reset_behaviour:
  assumes "0 < r"
    and "l = (RateLimiter_init r t0)\<lparr>tokens := tk, last_update := lu\<rparr>"
  shows "(let refilled = min (of_int r) (tk + (now - lu) * of_int r) in
            refilled \<le> of_int r
          \<and> last_update (fst (acquire now l)) = now
          \<and> rate_limit (fst (acquire now l)) = r
          \<and> (refilled < 1 \<longrightarrow> snd (acquire now l) = Some (1 / of_int r)
                               \<and> tokens (fst (acquire now l)) = 1 - 1)
          \<and> (\<not> refilled < 1 \<longrightarrow> snd (acquire now l) = None
                               \<and> tokens (fst (acquire now l)) = refilled - 1))
       \<and> tokens (reset now l) = of_int r \<and> last_update (reset now l) = now"
  using assms
  by (simp add: acquire_def reset_def RateLimiter_init_def Let_def)

theorem acquire_reset_behaviour_witness:
  "acquire (1/2) (RateLimiter_init 12 0\<lparr>tokens := 0, last_update := 1/4\<rparr>)
     = (RateLimiter_init 12 0\<lparr>tokens := 2, last_update := 1/2\<rparr>, None)
   \<and> acquire (1/4) (RateLimiter_init 12 0\<lparr>tokens := 1/2, last_update := 1/4\<rparr>)
     = (RateLimiter_init 12 0\<lparr>tokens := 0, last_update := 1/4\<rparr>, Some (1/12))"
proof -
  have p: "(0::int) < 12" by simp
  have a: "RateLimiter_init 12 0\<lparr>tokens := 0, last_update := 1/4\<rparr>
           = (RateLimiter_init 12 0)\<lparr>tokens := 0, last_update := 1/4\<rparr>" by simp
  have b: "RateLimiter_init 12 0\<lparr>tokens := 1/2, last_update := 1/4\<rparr>
           = (RateLimiter_init 12 0)\<lparr>tokens := 1/2, last_update := 1/4\<rparr>" by simp
  from acquire_reset_behaviour [OF p a, of "1/2"] acquire_reset_behaviour [OF p b, of "1/4"]
  show ?thesis
    by (simp add: acquire_def RateLimiter_init_def Let_def)
qed

text \<open>
  Claim C7. With rate 1, a caller that acquires seven times in a row gets all seven
  calls back within the interval from 0 to 3 seconds (within 3.007 seconds when it lets a
  millisecond pass between calls): more than \<open>R \<cdot> T + R = 4\<close>. A call that sleeps keeps the
  epoch of its entry, so the next call is credited a token for the time slept, although
  the sleep itself has already been paid with the token set to 1.
\<close>

theorem acquire_rate_exceeds_bound:
  "acquire_times [0, 0, 0, 0, 0, 0, 0] 0 (RateLimiter_init 1 0) = [0, 1, 1, 2, 2, 3, 3]
   \<and> acquire_times [1/1000, 1/1000, 1/1000, 1/1000, 1/1000, 1/1000, 1/1000] 0
         (RateLimiter_init 1 0)
       = [1/1000, 501/500, 1003/1000, 501/250, 401/200, 1503/500, 3007/1000]"
  by code_simp


section \<open>Notification text\<close>

text \<open>
  Claim C9. The adapter replaces \<open><\<close> and \<open>>\<close> first and \<open>&\<close> afterwards, so the ampersand
  of an entity it has just written is escaped again: \<open><b>\<close> is sent as
  \<open>&amp;lt;b&amp;gt;\<close>, where the standard escaping gives \<open>&lt;b&gt;\<close>.
\<close>

theorem telegram_text_escapes_twice:
  "telegram_text ''<b>'' = ''&amp;lt;b&amp;gt;'' \<and> html_escape ''<b>'' = ''&lt;b&gt;''
   \<and> send_telegram_notification True ''token'' ''chat'' ''<b>'' = Some ''&amp;lt;b&amp;gt;''"
  by (simp add: send_telegram_notification_def telegram_text_def replace_def html_escape_def
        html_escape_char_def)


section \<open>Orchestrator: the contexts that are tested\<close>

lemma process_payload_keeps:
  "running (snd (process_payload build dmn param pl a st)) = running st"
  "tested_parameters (snd (process_payload build dmn param pl a st)) = tested_parameters st"
  "scheduled (snd (process_payload build dmn param pl a st)) = scheduled st"
  by (auto simp: process_payload_def validate_alert_def on_error_def update_progress_def
        acquire_context_def release_context_def record_vulnerability_def Let_def
        split: option.splits prod.splits)

lemma payload_loop_keeps:
  "tested_parameters (snd (payload_loop build dmn param env ps st)) = tested_parameters st
   \<and> scheduled (snd (payload_loop build dmn param env ps st)) = scheduled st
   \<and> ((\<forall>pl\<in>set ps. \<not> stop_called (env pl))
        \<longrightarrow> running (snd (payload_loop build dmn param env ps st)) = running st)"
proof (induction ps arbitrary: st)
  case Nil
  show ?case by simp
next
  case (Cons pl ps)
  obtain fl st' where s: "process_payload build dmn param pl (env pl) st = (fl, st')"
    by (cases "process_payload build dmn param pl (env pl) st")
  from process_payload_keeps [of build dmn param pl "env pl" st] s
  have k: "running st' = running st" "tested_parameters st' = tested_parameters st"
    "scheduled st' = scheduled st" by simp_all
  show ?case
    using s k Cons.IH [of "after_attempt (env pl) st'"]
    by (cases fl) (auto simp: after_attempt_keeps)
qed

lemma process_parameter_payloads_keeps:
  "tested_parameters (process_parameter_payloads build dmn param env st) = tested_parameters st
   \<and> scheduled (process_parameter_payloads build dmn param env st) = scheduled st
   \<and> ((\<forall>pl. \<not> stop_called (env pl))
        \<longrightarrow> running (process_parameter_payloads build dmn param env st) = running st)"
proof -
  obtain fl st' where s: "payload_loop build dmn param env (payloads st) st = (fl, st')"
    by (cases "payload_loop build dmn param env (payloads st) st")
  from payload_loop_keeps [of build dmn param env "payloads st" st] s
  show ?thesis
    by (cases fl) (simp_all add: process_parameter_payloads_def update_progress_def)
qed

lemma run_tasks_keeps:
  "tested_parameters (run_tasks build env dmn ts st) = tested_parameters st
   \<and> scheduled (run_tasks build env dmn ts st) = scheduled st
   \<and> ((\<forall>u param pl. \<not> stop_called (env u param pl))
        \<longrightarrow> running (run_tasks build env dmn ts st) = running st)"
proof (induction ts arbitrary: st)
  case Nil
  show ?case by simp
next
  case (Cons t ts)
  obtain u p where t: "t = (u, p)" by (cases t)
  show ?case
    using Cons.IH [of "process_parameter_payloads (build u p) dmn p (env u p) st"]
      process_parameter_payloads_keeps [of "build u p" dmn p "env u p" st]
    by (simp add: t)
qed

lemma create_tasks_result:
  assumes "urlparse ok u = Some parsed"
  shows "running (snd (create_tasks ok lc u ps st)) = running st
       \<and> scheduled (snd (create_tasks ok lc u ps st)) = scheduled st
       \<and> tested_parameters (snd (create_tasks ok lc u ps st))
           = tested_parameters st \<union> context_of lc parsed ` set ps
       \<and> distinct (map (task_context ok lc) (fst (create_tasks ok lc u ps st)))
       \<and> set (map (task_context ok lc) (fst (create_tasks ok lc u ps st)))
           = Some ` (context_of lc parsed ` set ps - tested_parameters st)"
proof (induction ps arbitrary: st)
  case Nil
  show ?case by simp
next
  case (Cons p ps)
  let ?c = "context_of lc parsed p"
  have g: "get_parameter_context ok lc u p = Some ?c"
    using assms by (simp add: get_parameter_context_def)
  show ?case
  proof (cases "?c \<in> tested_parameters st")
    case True
    then have s: "should_test_parameter ok lc u p st = Some (False, st)"
      using g by (simp add: should_test_parameter_def)
    obtain ts st2 where c: "create_tasks ok lc u ps st = (ts, st2)"
      by (cases "create_tasks ok lc u ps st")
    from Cons.IH [of st] c True s show ?thesis
      by auto
  next
    case False
    let ?st1 = "st\<lparr>tested_parameters := insert ?c (tested_parameters st)\<rparr>"
    from False have s: "should_test_parameter ok lc u p st = Some (True, ?st1)"
      using g by (simp add: should_test_parameter_def)
    obtain ts st2 where c: "create_tasks ok lc u ps ?st1 = (ts, st2)"
      by (cases "create_tasks ok lc u ps ?st1")
    have tc: "task_context ok lc (u, p) = Some ?c"
      using g by (simp add: task_context_def)
    from Cons.IH [of ?st1] c
    have ih: "running st2 = running st" "scheduled st2 = scheduled st"
      "tested_parameters st2 = insert ?c (tested_parameters st) \<union> context_of lc parsed ` set ps"
      "distinct (map (task_context ok lc) ts)"
      "set (map (task_context ok lc) ts)
         = Some ` (context_of lc parsed ` set ps - insert ?c (tested_parameters st))"
      by simp_all
    from ih(5) have notin: "Some ?c \<notin> set (map (task_context ok lc) ts)" by auto
    have "set (map (task_context ok lc) ((u, p) # ts))
            = Some ` (context_of lc parsed ` set (p # ps) - tested_parameters st)"
      using ih(5) tc False by auto
    with ih notin tc s c show ?thesis
      by simp
  qed
qed

lemma process_batch_result:
  assumes "sched_inv ok lc st" and "running st"
    and "\<forall>u param pl. \<not> stop_called (env u param pl)"
  shows "sched_inv ok lc (process_batch ok lc build env urls st)
       \<and> running (process_batch ok lc build env urls st)
       \<and> tested_parameters (process_batch ok lc build env urls st)
           = tested_parameters st \<union> read_contexts_of ok lc urls"
  using assms(1,2)
proof (induction urls arbitrary: st)
  case Nil
  then show ?case by (simp add: read_contexts_of_def)
next
  case (Cons u us)
  show ?case
  proof (cases "urlparse ok u")
    case None
    with Cons show ?thesis
      by (simp add: read_contexts_of_def read_contexts_def)
  next
    case (Some parsed)
    let ?ps = "parse_qs_names (query parsed)"
    obtain ts st1 where c: "create_tasks ok lc u ?ps st = (ts, st1)"
      by (cases "create_tasks ok lc u ?ps st")
    let ?st2 = "st1\<lparr>scheduled := scheduled st1 @ ts\<rparr>"
    let ?st3 = "run_tasks build env (netloc parsed) ts ?st2"
    from create_tasks_result [OF Some, of lc ?ps st] c
    have r: "running st1 = running st" "scheduled st1 = scheduled st"
      "tested_parameters st1 = tested_parameters st \<union> context_of lc parsed ` set ?ps"
      "distinct (map (task_context ok lc) ts)"
      "set (map (task_context ok lc) ts)
         = Some ` (context_of lc parsed ` set ?ps - tested_parameters st)"
      by simp_all
    from run_tasks_keeps [of build env "netloc parsed" ts ?st2] assms(3)
    have k: "running ?st3 = running st" "tested_parameters ?st3 = tested_parameters st1"
      "scheduled ?st3 = scheduled st @ ts"
      using r by simp_all
    from Cons.prems(1) have i1: "distinct (map (task_context ok lc) (scheduled st))"
      and i2: "set (map (task_context ok lc) (scheduled st)) = Some ` tested_parameters st"
      by (simp_all add: sched_inv_def)
    have disj: "set (map (task_context ok lc) (scheduled st))
                  \<inter> set (map (task_context ok lc) ts) = {}"
      using i2 r(5) by auto
    have inv3: "sched_inv ok lc ?st3"
      unfolding sched_inv_def using k r i1 i2 disj by auto
    have run3: "running ?st3" using k Cons.prems(2) by simp
    from Cons.IH [OF inv3 run3]
    have ih: "sched_inv ok lc (process_batch ok lc build env us ?st3)"
      "running (process_batch ok lc build env us ?st3)"
      "tested_parameters (process_batch ok lc build env us ?st3)
         = tested_parameters ?st3 \<union> read_contexts_of ok lc us"
      by simp_all
    have step: "process_batch ok lc build env (u # us) st
                  = process_batch ok lc build env us ?st3"
      using Cons.prems(2) Some c by (simp add: Let_def)
    have "read_contexts_of ok lc (u # us)
            = context_of lc parsed ` set ?ps \<union> read_contexts_of ok lc us"
      using Some by (simp add: read_contexts_of_def read_contexts_def)
    with ih k r step show ?thesis
      by (simp add: Un_assoc)
  qed
qed

lemma read_contexts_of_take_drop:
  "read_contexts_of ok lc (take n urls) \<union> read_contexts_of ok lc (drop n urls)
     = read_contexts_of ok lc urls"
proof -
  have "set (take n urls) \<union> set (drop n urls) = set urls"
    by (metis append_take_drop_id set_append)
  then show ?thesis
    unfolding read_contexts_of_def by (metis Union_Un_distrib image_Un)
qed

lemma run_batches_result:
  assumes "sched_inv ok lc st" and "running st"
    and "\<forall>u param pl. \<not> stop_called (env u param pl)"
  shows "sched_inv ok lc (run_batches ok lc build env urls st)
       \<and> tested_parameters (run_batches ok lc build env urls st)
           = tested_parameters st \<union> read_contexts_of ok lc urls"
  using assms
proof (induction ok lc build env urls st rule: run_batches.induct)
  case (1 ok lc build env urls st)
  show ?case
  proof (cases "urls = []")
    case True
    with "1.prems" show ?thesis
      by (subst (1 2) run_batches.simps) (simp add: read_contexts_of_def)
  next
    case False
    let ?st1 = "process_batch ok lc build env (take URLS_BATCH_SIZE urls) st"
    from process_batch_result [OF "1.prems", of build "take URLS_BATCH_SIZE urls"]
    have b: "sched_inv ok lc ?st1" "running ?st1"
      "tested_parameters ?st1
         = tested_parameters st \<union> read_contexts_of ok lc (take URLS_BATCH_SIZE urls)"
      by simp_all
    have nn: "\<not> \<not> running st" using "1.prems"(2) by simp
    from "1.IH" [OF False nn b(1) b(2) "1.prems"(3)]
    have ih: "sched_inv ok lc (run_batches ok lc build env (drop URLS_BATCH_SIZE urls) ?st1)"
      "tested_parameters (run_batches ok lc build env (drop URLS_BATCH_SIZE urls) ?st1)
         = tested_parameters ?st1 \<union> read_contexts_of ok lc (drop URLS_BATCH_SIZE urls)"
      by simp_all
    have step: "run_batches ok lc build env urls st
                  = run_batches ok lc build env (drop URLS_BATCH_SIZE urls) ?st1"
      using False "1.prems"(2) by (subst run_batches.simps) simp
    show ?thesis
      using ih b(3) read_contexts_of_take_drop [of ok lc URLS_BATCH_SIZE urls]
      by (simp add: step Un_assoc)
  qed
qed

text \<open>
  What a run tests, when no task calls \<open>stop\<close>: exactly the contexts that \<open>process_batch\<close>
  reads from the URLs \<open>load_files\<close> keeps; the created tasks have these contexts and no two
  tasks share one.
\<close>

lemma run_tests_read_contexts:
  assumes "load_files ok all_urls = Some urls"
    and "\<forall>u param pl. \<not> stop_called (env u param pl)"
  shows "\<exists>st'. run ok lc build env all_urls (XSSScanner_init json ps) = Some st'
            \<and> tested_parameters st' = read_contexts_of ok lc urls
            \<and> set (map (task_context ok lc) (scheduled st')) = Some ` read_contexts_of ok lc urls
            \<and> distinct (map (task_context ok lc) (scheduled st'))"
proof -
  have i: "sched_inv ok lc (XSSScanner_init json ps)"
    by (simp add: sched_inv_def XSSScanner_init_def)
  have r: "running (XSSScanner_init json ps)"
    by (simp add: XSSScanner_init_def)
  have t: "tested_parameters (XSSScanner_init json ps) = {}"
    by (simp add: XSSScanner_init_def)
  from run_batches_result [OF i r assms(2), of build urls] t
  have "sched_inv ok lc (run_batches ok lc build env urls (XSSScanner_init json ps))"
    "tested_parameters (run_batches ok lc build env urls (XSSScanner_init json ps))
       = read_contexts_of ok lc urls"
    by simp_all
  then show ?thesis
    using assms(1) by (simp add: run_def sched_inv_def)
qed

text \<open>
  In any sequence of \<open>should_test_parameter\<close> calls from any state, however the callers
  interleave, the contexts that are granted are pairwise different and were not tested
  before: no context is granted twice.
\<close>

lemma grants_fresh:
  "distinct (grants ok lc calls st) \<and> set (grants ok lc calls st) \<inter> tested_parameters st = {}"
proof (induction calls arbitrary: st)
  case Nil
  show ?case by simp
next
  case (Cons c calls)
  obtain u p where c: "c = (u, p)" by (cases c)
  show ?case
  proof (cases "get_parameter_context ok lc u p")
    case None
    with Cons.IH [of st] show ?thesis
      by (simp add: c should_test_parameter_def)
  next
    case (Some ctx)
    show ?thesis
    proof (cases "ctx \<in> tested_parameters st")
      case True
      with Some Cons.IH [of st] show ?thesis
        by (simp add: c should_test_parameter_def)
    next
      case False
      with Some Cons.IH [of "st\<lparr>tested_parameters := insert ctx (tested_parameters st)\<rparr>"]
      show ?thesis
        by (auto simp: c should_test_parameter_def)
    qed
  qed
qed

text \<open>
  Claim C3. The list holds two URLs that \<open>validate_url\<close> accepts and \<open>load_files\<close> keeps.
  \<open>load_files\<close> counts one parameter for each: \<open>u\<close>, behind the fragment of the first, and
  \<open>Name\<close> in the query of the second, whose field \<open>flag\<close> has no \<open>=\<close>. Their contexts are
  \<open>a:u\<close> and \<open>B/y:name\<close> (netloc, path without the trailing slash, a colon, the lowercased
  name). The run tests \<open>B/y:name\<close> and \<open>B/y:flag\<close>: \<open>process_batch\<close> reads the names from
  the query component only, where the first URL has none, and with \<open>keep_blank_values\<close>,
  which keeps \<open>flag\<close>. The context \<open>a:u\<close> is never tested, and \<open>B/y:flag\<close> is tested
  although it is not among the counted parameters.
\<close>

theorem tested_contexts_differ_from_counted:
  "list_all validate_url two_urls
   \<and> load_files any_netloc two_urls = Some two_urls
   \<and> map counted_names two_urls = [[''u''], [''Name'']]
   \<and> counted_contexts any_netloc lower two_urls = [Some ''a:u'', Some ''B/y:name'']
   \<and> map_option tested_parameters
        (run any_netloc lower (\<lambda>u param pl. pl) (\<lambda>u param pl. attempt_plain) two_urls
           (XSSScanner_init False [''<p>'']))
       = Some {''B/y:name'', ''B/y:flag''}
   \<and> map_option scheduled
        (run any_netloc lower (\<lambda>u param pl. pl) (\<lambda>u param pl. attempt_plain) two_urls
           (XSSScanner_init False [''<p>'']))
       = Some [(''https://B/y/?Name=1&flag'', ''Name''), (''https://B/y/?Name=1&flag'', ''flag'')]"
  by code_simp


section \<open>URL normaliser: the signature of a URL with a query\<close>

subsection \<open>Searching and splitting\<close>

lemma takeWhile_neq_append:
  "c \<notin> set xs \<Longrightarrow> takeWhile (\<lambda>x. x \<noteq> c) (xs @ ys) = xs @ takeWhile (\<lambda>x. x \<noteq> c) ys"
  by (induction xs) auto

lemma dropWhile_neq_append:
  "c \<notin> set xs \<Longrightarrow> dropWhile (\<lambda>x. x \<noteq> c) (xs @ ys) = dropWhile (\<lambda>x. x \<noteq> c) ys"
  by (induction xs) auto

lemma before_append_sep: "c \<notin> set xs \<Longrightarrow> before c (xs @ c # ys) = xs"
  by (simp add: before_def takeWhile_neq_append)

lemma after_append_sep: "c \<notin> set xs \<Longrightarrow> after c (xs @ c # ys) = ys"
  by (simp add: after_def dropWhile_neq_append)

lemma before_notin: "c \<notin> set xs \<Longrightarrow> before c xs = xs"
  by (induction xs) (auto simp: before_def)

lemma before_in_append: "c \<in> set xs \<Longrightarrow> before c (xs @ ys) = before c xs"
  by (simp add: before_def takeWhile_append1)

lemma after_in_append: "c \<in> set xs \<Longrightarrow> after c (xs @ ys) = after c xs @ ys"
proof -
  assume c: "c \<in> set xs"
  then have ne: "dropWhile (\<lambda>x. x \<noteq> c) xs \<noteq> []" by (simp add: dropWhile_eq_Nil_conv)
  from c have "dropWhile (\<lambda>x. x \<noteq> c) (xs @ ys) = dropWhile (\<lambda>x. x \<noteq> c) xs @ ys"
    by (simp add: dropWhile_append1)
  with ne show ?thesis by (simp add: after_def)
qed

lemma set_before: "set (before c xs) \<subseteq> set xs"
  by (auto simp: before_def dest: set_takeWhileD)

lemma set_after: "set (after c xs) \<subseteq> set xs"
proof -
  have "\<And>ys::string. set (tl ys) \<subseteq> set ys"
    subgoal for ys by (cases ys) auto
    done
  then have "set (tl (dropWhile (\<lambda>x. x \<noteq> c) xs)) \<subseteq> set (dropWhile (\<lambda>x. x \<noteq> c) xs)"
    by blast
  also have "\<dots> \<subseteq> set xs" by (auto dest: set_dropWhileD)
  finally show ?thesis by (simp add: after_def)
qed

lemma before_free: "c \<notin> set (before c xs)"
  by (auto simp: before_def dest: set_takeWhileD)

lemma split_on_ne [simp]: "split_on c s \<noteq> []"
  by (induction s) (auto split: list.splits)

lemma hd_split_on: "hd (split_on c s) = before c s"
  by (induction s) (auto simp: before_def split: list.splits)

lemma split_on_notin: "c \<notin> set s \<Longrightarrow> split_on c s = [s]"
  by (induction s) (auto split: list.splits)

lemma split_on_append_sep:
  "c \<notin> set xs \<Longrightarrow> split_on c (xs @ c # ys) = xs # split_on c ys"
  by (induction xs) (auto split: list.splits)

lemma split_on_join:
  "xs \<noteq> [] \<Longrightarrow> \<forall>x\<in>set xs. c \<notin> set x \<Longrightarrow> split_on c (join c xs) = xs"
proof (induction c xs rule: join.induct)
  case (1 c)
  then show ?case by simp
next
  case (2 c p)
  then show ?case by (simp add: split_on_notin)
next
  case (3 c p q ps)
  then show ?case by (simp add: split_on_append_sep)
qed

lemma split_on_parts_free: "x \<in> set (split_on c s) \<Longrightarrow> c \<notin> set x"
proof (induction s arbitrary: x)
  case Nil
  then show ?case by simp
next
  case (Cons a s)
  then show ?case
    by (cases "split_on c s") (auto split: if_splits)
qed

lemma split_on_parts_subset: "x \<in> set (split_on c s) \<Longrightarrow> set x \<subseteq> set s"
proof (induction s arbitrary: x)
  case Nil
  then show ?case by simp
next
  case (Cons a s)
  show ?case
  proof (cases "split_on c s")
    case Nil
    then show ?thesis by simp
  next
    case (Cons w ws)
    with Cons.prems Cons.IH [of w] Cons.IH [of x] show ?thesis
      by (fastforce split: if_splits)
  qed
qed

lemma split_on_length: "c \<in> set s \<Longrightarrow> 2 \<le> length (split_on c s)"
proof (induction s)
  case Nil
  then show ?case by simp
next
  case (Cons a s)
  then show ?case
    by (cases "split_on c s") (auto split: if_splits)
qed

lemma filter_join:
  "\<not> P c \<Longrightarrow> filter (\<lambda>x. \<not> P x) (join c xs) = join c (map (filter (\<lambda>x. \<not> P x)) xs)"
  by (induction c xs rule: join.induct) auto

lemma join_free:
  "\<forall>x\<in>set xs. d \<notin> set x \<Longrightarrow> d \<noteq> c \<Longrightarrow> d \<notin> set (join c xs)"
  by (induction c xs rule: join.induct) auto

subsection \<open>The stages of urlsplit in front of a question mark or a hash sign\<close>

lemma separator_chars:
  assumes "c = CHR ''?'' \<or> c = CHR ''#''"
  shows "\<not> c0_or_space c" and "\<not> unsafe_byte c" and "\<not> scheme_char c" and "netloc_end c"
    and "c \<noteq> CHR ''/''"
  using assms
  by (auto simp: c0_or_space_def unsafe_byte_def scheme_char_def netloc_end_def)

lemma clean_url_sep:
  assumes "c = CHR ''?'' \<or> c = CHR ''#''"
  shows "clean_url (pre @ c # q) = clean_url pre @ c # filter (\<lambda>c. \<not> unsafe_byte c) q"
proof -
  have "dropWhile c0_or_space (pre @ c # q) = dropWhile c0_or_space pre @ c # q"
    by (induction pre) (simp_all add: separator_chars(1) [OF assms])
  then show ?thesis
    by (simp add: clean_url_def separator_chars(2) [OF assms])
qed

lemma set_clean_url: "set (clean_url u) \<subseteq> set u"
  by (auto simp: clean_url_def dest: set_dropWhileD)

lemma clean_url_safe: "c \<in> set (clean_url u) \<Longrightarrow> \<not> unsafe_byte c"
  by (simp add: clean_url_def)

lemma has_scheme_sep:
  assumes "c = CHR ''?'' \<or> c = CHR ''#''" and "c \<notin> set p"
  shows "has_scheme (p @ c # q) = has_scheme p"
proof (cases "CHR '':'' \<in> set p")
  case True
  then have "p \<noteq> []" by auto
  then have "hd (p @ c # q) = hd p" by simp
  with True show ?thesis
    by (simp add: has_scheme_def before_in_append)
next
  case False
  then have np: "\<not> has_scheme p" by (simp add: has_scheme_def)
  have "c \<noteq> CHR '':''" using assms(1) by auto
  then have "before (CHR '':'') (p @ c # q) = p @ c # before (CHR '':'') q"
    using False by (simp add: before_def takeWhile_neq_append)
  then have "\<not> list_all scheme_char (before (CHR '':'') (p @ c # q))"
    by (simp add: separator_chars(3) [OF assms(1)])
  then show ?thesis using np by (simp add: has_scheme_def)
qed

lemma split_scheme_sep:
  assumes "c = CHR ''?'' \<or> c = CHR ''#''" and "c \<notin> set p"
  shows "split_scheme (p @ c # q) = (fst (split_scheme p), snd (split_scheme p) @ c # q)"
proof (cases "has_scheme p")
  case True
  then have c: "CHR '':'' \<in> set p" by (simp add: has_scheme_def)
  from True assms have "has_scheme (p @ c # q)" by (simp add: has_scheme_sep)
  with True c show ?thesis
    by (simp add: split_scheme_def before_in_append after_in_append)
next
  case False
  with assms have "\<not> has_scheme (p @ c # q)" by (simp add: has_scheme_sep)
  with False show ?thesis by (simp add: split_scheme_def)
qed

lemma set_split_scheme_rest: "set (snd (split_scheme p)) \<subseteq> set p"
  using set_after [of "CHR '':''" p] by (simp add: split_scheme_def)

lemma take2_sep:
  assumes "c = CHR ''?'' \<or> c = CHR ''#''" and "c \<notin> set p"
  shows "(take 2 (p @ c # q) = ''//'') = (take 2 p = ''//'')"
proof (cases p)
  case Nil
  with assms(1) show ?thesis by auto
next
  case (Cons a p')
  show ?thesis
  proof (cases p')
    case Nil
    with Cons assms show ?thesis by auto
  next
    case (Cons b p'')
    with \<open>p = a # p'\<close> show ?thesis by simp
  qed
qed

lemma split_netloc_sep:
  assumes "c = CHR ''?'' \<or> c = CHR ''#''" and "c \<notin> set p"
  shows "split_netloc (p @ c # q) = (fst (split_netloc p), snd (split_netloc p) @ c # q)"
proof (cases "take 2 p = ''//''")
  case True
  then have "length (take 2 p) = 2" by simp
  then have l: "2 \<le> length p" by simp
  then have d: "drop 2 (p @ c # q) = drop 2 p @ c # q" by simp
  note ne = separator_chars(4) [OF assms(1)]
  have t': "\<And>xs. takeWhile (\<lambda>c. \<not> netloc_end c) (xs @ c # q)
             = takeWhile (\<lambda>c. \<not> netloc_end c) xs"
    subgoal for xs by (induction xs) (simp_all add: ne)
    done
  have d': "\<And>xs. dropWhile (\<lambda>c. \<not> netloc_end c) (xs @ c # q)
             = dropWhile (\<lambda>c. \<not> netloc_end c) xs @ c # q"
    subgoal for xs by (induction xs) (simp_all add: ne)
    done
  have "take 2 (p @ c # q) = ''//''"
    using take2_sep [OF assms, of q] True by blast
  with True t' d' l show ?thesis
    by (simp add: split_netloc_def)
next
  case False
  then have "take 2 (p @ c # q) \<noteq> ''//''"
    using take2_sep [OF assms, of q] by blast
  with False show ?thesis by (simp add: split_netloc_def)
qed

lemma set_split_netloc:
  "set (fst (split_netloc p)) \<subseteq> set p" "set (snd (split_netloc p)) \<subseteq> set p"
  by (auto simp: split_netloc_def dest: set_takeWhileD set_dropWhileD in_set_dropD)

lemma split_fragment_none: "CHR ''#'' \<notin> set p \<Longrightarrow> split_fragment p = (p, [])"
  by (simp add: split_fragment_def)

lemma split_fragment_sep:
  "CHR ''#'' \<notin> set p \<Longrightarrow> split_fragment (p @ CHR ''#'' # q) = (p, q)"
  by (simp add: split_fragment_def before_append_sep after_append_sep)

lemma split_query_sep: "CHR ''?'' \<notin> set p \<Longrightarrow> split_query (p @ CHR ''?'' # q) = (p, q)"
  by (simp add: split_query_def before_append_sep after_append_sep)

lemma split_query_none: "CHR ''?'' \<notin> set p \<Longrightarrow> split_query p = (p, [])"
  by (simp add: split_query_def)

text \<open>A query behind a text without \<open>?\<close> and \<open>#\<close>; a fragment behind a text without \<open>#\<close>.\<close>

lemma urlsplit_query:
  assumes "CHR ''?'' \<notin> set pre" and "CHR ''#'' \<notin> set pre" and "CHR ''#'' \<notin> set q"
  shows "urlsplit ok (pre @ CHR ''?'' # q)
           = map_option (\<lambda>r. r\<lparr>query := filter (\<lambda>c. \<not> unsafe_byte c) q\<rparr>) (urlsplit ok pre)"
proof -
  let ?q1 = "filter (\<lambda>c. \<not> unsafe_byte c) q"
  let ?p1 = "clean_url pre"
  let ?p2 = "snd (split_scheme ?p1)"
  let ?p3 = "snd (split_netloc ?p2)"
  have sep: "CHR ''?'' = CHR ''?'' \<or> CHR ''?'' = CHR ''#''" by simp
  have q1: "CHR ''?'' \<notin> set ?p1" "CHR ''#'' \<notin> set ?p1"
    using assms set_clean_url [of pre] by auto
  have q2: "CHR ''?'' \<notin> set ?p2" "CHR ''#'' \<notin> set ?p2"
    using q1 set_split_scheme_rest [of ?p1] by auto
  have q3: "CHR ''?'' \<notin> set ?p3" "CHR ''#'' \<notin> set ?p3"
    using q2 set_split_netloc(2) [of ?p2] by auto
  have hq: "CHR ''#'' \<notin> set ?q1" using assms(3) by simp
  have s1: "clean_url (pre @ CHR ''?'' # q) = ?p1 @ CHR ''?'' # ?q1"
    using sep by (rule clean_url_sep)
  have s2: "split_scheme (?p1 @ CHR ''?'' # ?q1) = (fst (split_scheme ?p1), ?p2 @ CHR ''?'' # ?q1)"
    using sep q1(1) by (rule split_scheme_sep)
  have s3: "split_netloc (?p2 @ CHR ''?'' # ?q1) = (fst (split_netloc ?p2), ?p3 @ CHR ''?'' # ?q1)"
    using sep q2(1) by (rule split_netloc_sep)
  have s4: "split_fragment (?p3 @ CHR ''?'' # ?q1) = (?p3 @ CHR ''?'' # ?q1, [])"
    using q3(2) hq by (simp add: split_fragment_none)
  have s4': "split_fragment ?p3 = (?p3, [])"
    using q3(2) by (simp add: split_fragment_none)
  have s5: "split_query (?p3 @ CHR ''?'' # ?q1) = (?p3, ?q1)"
    using q3(1) by (rule split_query_sep)
  have s5': "split_query ?p3 = (?p3, [])"
    using q3(1) by (rule split_query_none)
  show ?thesis
    by (simp add: urlsplit_def Let_def s1 s2 s3 s4 s4' s5 s5')
qed

lemma urlsplit_fragment:
  assumes "CHR ''#'' \<notin> set x"
  shows "urlsplit ok (x @ CHR ''#'' # f)
           = map_option (\<lambda>r. r\<lparr>fragment := filter (\<lambda>c. \<not> unsafe_byte c) f\<rparr>) (urlsplit ok x)"
proof -
  let ?f1 = "filter (\<lambda>c. \<not> unsafe_byte c) f"
  let ?p1 = "clean_url x"
  let ?p2 = "snd (split_scheme ?p1)"
  let ?p3 = "snd (split_netloc ?p2)"
  have sep: "CHR ''#'' = CHR ''?'' \<or> CHR ''#'' = CHR ''#''" by simp
  have q1: "CHR ''#'' \<notin> set ?p1"
    using assms set_clean_url [of x] by auto
  have q2: "CHR ''#'' \<notin> set ?p2"
    using q1 set_split_scheme_rest [of ?p1] by auto
  have q3: "CHR ''#'' \<notin> set ?p3"
    using q2 set_split_netloc(2) [of ?p2] by auto
  have s1: "clean_url (x @ CHR ''#'' # f) = ?p1 @ CHR ''#'' # ?f1"
    using sep by (rule clean_url_sep)
  have s2: "split_scheme (?p1 @ CHR ''#'' # ?f1) = (fst (split_scheme ?p1), ?p2 @ CHR ''#'' # ?f1)"
    using sep q1 by (rule split_scheme_sep)
  have s3: "split_netloc (?p2 @ CHR ''#'' # ?f1) = (fst (split_netloc ?p2), ?p3 @ CHR ''#'' # ?f1)"
    using sep q2 by (rule split_netloc_sep)
  have s4: "split_fragment (?p3 @ CHR ''#'' # ?f1) = (?p3, ?f1)"
    using q3 by (rule split_fragment_sep)
  have s4': "split_fragment ?p3 = (?p3, [])"
    using q3 by (rule split_fragment_none)
  show ?thesis
    by (simp add: urlsplit_def Let_def s1 s2 s3 s4 s4')
qed

lemma urlparse_query:
  assumes "CHR ''?'' \<notin> set pre" and "CHR ''#'' \<notin> set pre" and "CHR ''#'' \<notin> set q"
  shows "urlparse ok (pre @ CHR ''?'' # q)
           = map_option (\<lambda>r. r\<lparr>query := filter (\<lambda>c. \<not> unsafe_byte c) q\<rparr>) (urlparse ok pre)"
  by (cases "urlsplit ok pre") (simp_all add: urlparse_def urlsplit_query [OF assms])

lemma urlparse_fragment:
  assumes "CHR ''#'' \<notin> set x"
  shows "urlparse ok (x @ CHR ''#'' # f)
           = map_option (\<lambda>r. r\<lparr>fragment := filter (\<lambda>c. \<not> unsafe_byte c) f\<rparr>) (urlparse ok x)"
  by (cases "urlsplit ok x") (simp_all add: urlparse_def urlsplit_fragment [OF assms])

text \<open>
  The signature looks at scheme, netloc and path of the parse result only, and at the raw
  URL for the query behind a fragment.
\<close>

lemma signature_of_update [simp]:
  "signature_of (r\<lparr>query := q\<rparr>) ps = signature_of r ps"
  "signature_of (r\<lparr>fragment := f\<rparr>) ps = signature_of r ps"
  by (simp_all add: signature_of_def)

lemma nth1_split_on:
  "c \<notin> set x \<Longrightarrow> split_on c (x @ c # y) ! 1 = before c y"
proof -
  assume "c \<notin> set x"
  then have "split_on c (x @ c # y) = x # split_on c y" by (rule split_on_append_sep)
  moreover have "split_on c y ! 0 = hd (split_on c y)"
    by (simp add: hd_conv_nth)
  ultimately show ?thesis by (simp add: hd_split_on)
qed

lemma get_url_signature_parsed:
  "urlparse ok u = Some p
     \<Longrightarrow> get_url_signature ok u = signature_of p (signature_params (signature_query u p))"
  by (simp add: get_url_signature_def signature_of_def Let_def)

lemma get_url_signature_refused:
  "urlparse ok x = None \<Longrightarrow> get_url_signature ok x = x"
  by (simp add: get_url_signature_def)

lemma get_url_signature_query:
  assumes "CHR ''?'' \<notin> set pre" and "CHR ''#'' \<notin> set pre" and "CHR ''#'' \<notin> set q"
  shows "get_url_signature ok (pre @ CHR ''?'' # q)
           = (case urlparse ok pre of
                None \<Rightarrow> pre @ CHR ''?'' # q
              | Some r \<Rightarrow> signature_of r (signature_params (filter (\<lambda>c. \<not> unsafe_byte c) q)))"
proof -
  have h: "CHR ''#'' \<notin> set (pre @ CHR ''?'' # q)" using assms by simp
  show ?thesis
    using h
    by (cases "urlparse ok pre")
       (simp_all add: get_url_signature_def urlparse_query [OF assms] signature_query_def
          signature_of_def Let_def del: set_append)
qed

text \<open>
  A query followed by a fragment: the names come from the query, unless the fragment has
  a question mark before its next \<open>#\<close>; then they come from the text behind that
  question mark, up to the next one.
\<close>

lemma get_url_signature_query_fragment:
  assumes "CHR ''?'' \<notin> set pre" and "CHR ''#'' \<notin> set pre" and "CHR ''#'' \<notin> set q"
  shows "get_url_signature ok (pre @ CHR ''?'' # q @ CHR ''#'' # f)
           = (case urlparse ok pre of
                None \<Rightarrow> pre @ CHR ''?'' # q @ CHR ''#'' # f
              | Some r \<Rightarrow>
                  signature_of r
                    (if CHR ''?'' \<in> set (before (CHR ''#'') f)
                     then signature_params (split_on (CHR ''?'') (before (CHR ''#'') f) ! 1)
                     else signature_params (filter (\<lambda>c. \<not> unsafe_byte c) q)))"
proof -
  let ?x = "pre @ CHR ''?'' # q"
  let ?u = "?x @ CHR ''#'' # f"
  have x: "CHR ''#'' \<notin> set ?x" using assms by simp
  have u: "pre @ CHR ''?'' # q @ CHR ''#'' # f = ?u" by simp
  have p: "urlparse ok ?u
             = map_option (\<lambda>r. r\<lparr>query := filter (\<lambda>c. \<not> unsafe_byte c) q,
                                  fragment := filter (\<lambda>c. \<not> unsafe_byte c) f\<rparr>) (urlparse ok pre)"
    unfolding urlparse_fragment [OF x] urlparse_query [OF assms]
    by (cases "urlparse ok pre") simp_all
  have h: "CHR ''#'' \<in> set ?u" by simp
  have n: "split_on (CHR ''#'') ?u ! 1 = before (CHR ''#'') f"
    using x by (rule nth1_split_on)
  show ?thesis
  proof (cases "urlparse ok pre")
    case None
    with p have "urlparse ok ?u = None" by simp
    then have "get_url_signature ok ?u = ?u" by (rule get_url_signature_refused)
    with None show ?thesis unfolding u by simp
  next
    case (Some r)
    let ?r = "r\<lparr>query := filter (\<lambda>c. \<not> unsafe_byte c) q,
                  fragment := filter (\<lambda>c. \<not> unsafe_byte c) f\<rparr>"
    from p Some have ps: "urlparse ok ?u = Some ?r" by simp
    have sq: "signature_query ?u ?r
                = (if CHR ''?'' \<in> set (before (CHR ''#'') f)
                   then split_on (CHR ''?'') (before (CHR ''#'') f) ! 1
                   else filter (\<lambda>c. \<not> unsafe_byte c) q)"
      unfolding signature_query_def n using h by simp
    have "get_url_signature ok ?u = signature_of ?r (signature_params (signature_query ?u ?r))"
      using ps by (rule get_url_signature_parsed)
    then show ?thesis
      unfolding u sq using Some by (simp split: if_splits)
  qed
qed

text \<open>The names come from the query behind the fragment.\<close>

lemma get_url_signature_fragment_query:
  assumes "CHR ''#'' \<notin> set pre" and "CHR ''#'' \<notin> set mid" and "CHR ''?'' \<notin> set mid"
    and "CHR ''#'' \<notin> set q" and "CHR ''?'' \<notin> set q"
    and "rest = [] \<or> hd rest = CHR ''#'' \<or> hd rest = CHR ''?''"
  shows "get_url_signature ok (pre @ CHR ''#'' # mid @ CHR ''?'' # q @ rest)
           = (case urlparse ok pre of
                None \<Rightarrow> pre @ CHR ''#'' # mid @ CHR ''?'' # q @ rest
              | Some r \<Rightarrow> signature_of r (signature_params q))"
proof -
  let ?f = "mid @ CHR ''?'' # q @ rest"
  let ?u = "pre @ CHR ''#'' # ?f"
  have p: "urlparse ok ?u
             = map_option (\<lambda>r. r\<lparr>fragment := filter (\<lambda>c. \<not> unsafe_byte c) ?f\<rparr>) (urlparse ok pre)"
    using assms(1) by (rule urlparse_fragment)
  have h: "CHR ''#'' \<in> set ?u" by simp
  have mq: "CHR ''#'' \<notin> set (mid @ CHR ''?'' # q)" using assms(2,4) by simp
  have "before (CHR ''#'') ((mid @ CHR ''?'' # q) @ rest)
          = (mid @ CHR ''?'' # q) @ before (CHR ''#'') rest"
    unfolding before_def using mq by (rule takeWhile_neq_append)
  then have b: "before (CHR ''#'') ?f = mid @ CHR ''?'' # (q @ before (CHR ''#'') rest)"
    by simp
  have e: "before (CHR ''?'') (before (CHR ''#'') rest) = []"
    using assms(6) by (cases rest) (auto simp: before_def)
  have "before (CHR ''?'') (q @ before (CHR ''#'') rest)
          = q @ before (CHR ''?'') (before (CHR ''#'') rest)"
    unfolding before_def using assms(5) by (rule takeWhile_neq_append)
  with e have bq: "before (CHR ''?'') (q @ before (CHR ''#'') rest) = q" by simp
  have n: "split_on (CHR ''#'') ?u ! 1 = mid @ CHR ''?'' # (q @ before (CHR ''#'') rest)"
    using nth1_split_on [OF assms(1), of ?f] b by simp
  have n2: "split_on (CHR ''?'') (mid @ CHR ''?'' # (q @ before (CHR ''#'') rest)) ! 1 = q"
    using nth1_split_on [OF assms(3), of "q @ before (CHR ''#'') rest"] bq by simp
  show ?thesis
  proof (cases "urlparse ok pre")
    case None
    with p have "urlparse ok ?u = None" by simp
    then have "get_url_signature ok ?u = ?u" by (rule get_url_signature_refused)
    with None show ?thesis by simp
  next
    case (Some r)
    let ?r = "r\<lparr>fragment := filter (\<lambda>c. \<not> unsafe_byte c) ?f\<rparr>"
    from p Some have ps: "urlparse ok ?u = Some ?r" by simp
    have sq: "signature_query ?u ?r = q"
      unfolding signature_query_def n n2 using h by simp
    have "get_url_signature ok ?u = signature_of ?r (signature_params (signature_query ?u ?r))"
      using ps by (rule get_url_signature_parsed)
    then show ?thesis
      unfolding sq using Some by simp
  qed
qed


section \<open>URL normaliser: fields without a value\<close>

lemma not_unsafe_amp: "\<not> unsafe_byte (CHR ''&'')"
  by (simp add: unsafe_byte_def)

lemma not_unsafe_eq: "\<not> unsafe_byte (CHR ''='')"
  by (simp add: unsafe_byte_def)

lemma signature_params_split:
  "signature_params qry
     = map (\<lambda>i. before (CHR ''='') i @ ''='')
           (filter (\<lambda>i. has_eq i \<and> before (CHR ''='') i \<noteq> []) (split_on (CHR ''&'') qry))"
proof (cases "qry = []")
  case True
  then show ?thesis by (simp add: signature_params_def has_eq_def)
next
  case False
  then show ?thesis by (simp add: signature_params_def has_eq_def hd_split_on)
qed

lemma signature_params_join:
  assumes "\<forall>x\<in>set xs. CHR ''&'' \<notin> set x"
  shows "signature_params (join (CHR ''&'') xs)
           = map (\<lambda>i. before (CHR ''='') i @ ''='')
                 (filter (\<lambda>i. has_eq i \<and> before (CHR ''='') i \<noteq> []) xs)"
proof (cases "xs = []")
  case True
  then show ?thesis by (simp add: signature_params_split has_eq_def)
next
  case False
  with assms have "split_on (CHR ''&'') (join (CHR ''&'') xs) = xs"
    by (simp add: split_on_join)
  then show ?thesis by (simp add: signature_params_split)
qed

text \<open>The stripped names of a query given by its fields.\<close>

lemma before_filter:
  "\<not> P c \<Longrightarrow> before c (filter (\<lambda>x. \<not> P x) s) = filter (\<lambda>x. \<not> P x) (before c s)"
  by (induction s) (auto simp: before_def)

lemma has_eq_filter: "has_eq (filter (\<lambda>c. \<not> unsafe_byte c) i) = has_eq i"
  by (auto simp: has_eq_def not_unsafe_eq)

lemma signature_params_fields:
  assumes "\<forall>x\<in>set items. CHR ''&'' \<notin> set x"
  shows "signature_params (filter (\<lambda>c. \<not> unsafe_byte c) (join (CHR ''&'') items))
           = map (\<lambda>i. filter (\<lambda>c. \<not> unsafe_byte c) (before (CHR ''='') i) @ ''='')
                 (filter (\<lambda>i. filter (\<lambda>c. \<not> unsafe_byte c) (before (CHR ''='') i) \<noteq> [])
                         (filter has_eq items))"
proof -
  let ?cl = "filter (\<lambda>c. \<not> unsafe_byte c)"
  have j: "?cl (join (CHR ''&'') items) = join (CHR ''&'') (map ?cl items)"
    using not_unsafe_amp by (rule filter_join)
  have a: "\<forall>x\<in>set (map ?cl items). CHR ''&'' \<notin> set x"
    using assms by auto
  have b: "\<And>i. before (CHR ''='') (?cl i) = ?cl (before (CHR ''='') i)"
    using not_unsafe_eq by (rule before_filter)
  show ?thesis
    unfolding j signature_params_join [OF a]
    by (simp add: filter_map comp_def has_eq_filter b conj_commute)
qed

lemma signature_params_raw:
  assumes "\<forall>x\<in>set items. CHR ''&'' \<notin> set x"
  shows "signature_params (join (CHR ''&'') items)
           = map (\<lambda>i. before (CHR ''='') i @ ''='')
                 (filter (\<lambda>i. before (CHR ''='') i \<noteq> []) (filter has_eq items))"
  unfolding signature_params_join [OF assms] by (simp add: conj_commute)

subsection \<open>The signature of a URL given by its fields\<close>

lemma query_shape_parts:
  assumes "query_shape pre items rest"
  shows "CHR ''?'' \<notin> set pre" and "CHR ''#'' \<notin> set pre"
    and "\<forall>x\<in>set items. CHR ''&'' \<notin> set x"
    and "CHR ''#'' \<notin> set (join (CHR ''&'') items)"
    and "rest = [] \<or> rest = CHR ''#'' # tl rest"
proof -
  from assms show "CHR ''?'' \<notin> set pre" "CHR ''#'' \<notin> set pre"
    by (simp_all add: query_shape_def)
  from assms show a: "\<forall>x\<in>set items. CHR ''&'' \<notin> set x"
    by (simp add: query_shape_def list_all_iff)
  from assms have "\<forall>x\<in>set items. CHR ''#'' \<notin> set x"
    by (simp add: query_shape_def list_all_iff)
  then show "CHR ''#'' \<notin> set (join (CHR ''&'') items)"
    by (rule join_free) simp
  from assms show "rest = [] \<or> rest = CHR ''#'' # tl rest"
    by (cases rest) (auto simp: query_shape_def)
qed

lemma fragment_shape_parts:
  assumes "fragment_shape pre mid items rest"
  shows "CHR ''#'' \<notin> set pre" and "CHR ''#'' \<notin> set mid" and "CHR ''?'' \<notin> set mid"
    and "\<forall>x\<in>set items. CHR ''&'' \<notin> set x"
    and "CHR ''#'' \<notin> set (join (CHR ''&'') items)"
    and "CHR ''?'' \<notin> set (join (CHR ''&'') items)"
    and "rest = [] \<or> hd rest = CHR ''#'' \<or> hd rest = CHR ''?''"
proof -
  from assms show "CHR ''#'' \<notin> set pre" "CHR ''#'' \<notin> set mid" "CHR ''?'' \<notin> set mid"
    "rest = [] \<or> hd rest = CHR ''#'' \<or> hd rest = CHR ''?''"
    by (simp_all add: fragment_shape_def)
  from assms show "\<forall>x\<in>set items. CHR ''&'' \<notin> set x"
    by (simp add: fragment_shape_def list_all_iff)
  from assms have "\<forall>x\<in>set items. CHR ''#'' \<notin> set x" "\<forall>x\<in>set items. CHR ''?'' \<notin> set x"
    by (simp_all add: fragment_shape_def list_all_iff)
  then show "CHR ''#'' \<notin> set (join (CHR ''&'') items)"
    "CHR ''?'' \<notin> set (join (CHR ''&'') items)"
    by (simp_all add: join_free)
qed

lemma signature_query_shape:
  assumes "query_shape pre items rest"
  shows "get_url_signature ok (query_url pre items rest)
           = (case urlparse ok pre of
                None \<Rightarrow> query_url pre items rest
              | Some r \<Rightarrow>
                  signature_of r
                    (if rest \<noteq> [] \<and> CHR ''?'' \<in> set (before (CHR ''#'') (tl rest))
                     then signature_params (split_on (CHR ''?'') (before (CHR ''#'') (tl rest)) ! 1)
                     else map (\<lambda>i. filter (\<lambda>c. \<not> unsafe_byte c) (before (CHR ''='') i) @ ''='')
                            (filter (\<lambda>i. filter (\<lambda>c. \<not> unsafe_byte c) (before (CHR ''='') i) \<noteq> [])
                               (filter has_eq items))))"
proof -
  note s = query_shape_parts [OF assms]
  from s(5) show ?thesis
  proof
    assume e: "rest = []"
    then have u: "query_url pre items rest = pre @ CHR ''?'' # join (CHR ''&'') items"
      by (simp add: query_url_def)
    show ?thesis
      unfolding u get_url_signature_query [OF s(1,2,4)] signature_params_fields [OF s(3)]
      using e by simp
  next
    assume r: "rest = CHR ''#'' # tl rest"
    have "get_url_signature ok (pre @ CHR ''?'' # join (CHR ''&'') items @ CHR ''#'' # tl rest)
            = (case urlparse ok pre of
                 None \<Rightarrow> pre @ CHR ''?'' # join (CHR ''&'') items @ CHR ''#'' # tl rest
               | Some r \<Rightarrow>
                   signature_of r
                     (if CHR ''?'' \<in> set (before (CHR ''#'') (tl rest))
                      then signature_params (split_on (CHR ''?'') (before (CHR ''#'') (tl rest)) ! 1)
                      else signature_params
                             (filter (\<lambda>c. \<not> unsafe_byte c) (join (CHR ''&'') items))))"
      using s(1,2,4) by (rule get_url_signature_query_fragment)
    note g = this
    have n: "rest \<noteq> []" using r by auto
    have u: "query_url pre items rest
               = pre @ CHR ''?'' # join (CHR ''&'') items @ CHR ''#'' # tl rest"
      unfolding query_url_def using r by simp
    show ?thesis
      unfolding u g signature_params_fields [OF s(3)] using n
      by (cases "urlparse ok pre") simp_all
  qed
qed

lemma signature_fragment_shape:
  assumes "fragment_shape pre mid items rest"
  shows "get_url_signature ok (fragment_url pre mid items rest)
           = (case urlparse ok pre of
                None \<Rightarrow> fragment_url pre mid items rest
              | Some r \<Rightarrow>
                  signature_of r
                    (map (\<lambda>i. before (CHR ''='') i @ ''='')
                       (filter (\<lambda>i. before (CHR ''='') i \<noteq> []) (filter has_eq items))))"
proof -
  note s = fragment_shape_parts [OF assms]
  show ?thesis
    unfolding fragment_url_def get_url_signature_fragment_query [OF s(1,2,3,5,6,7)]
      signature_params_raw [OF s(4)] ..
qed

lemma parsed_query_shape:
  assumes "query_shape pre items rest"
  shows "(urlparse ok (query_url pre items rest) = None) = (urlparse ok pre = None)"
proof -
  note s = query_shape_parts [OF assms]
  let ?x = "pre @ CHR ''?'' # join (CHR ''&'') items"
  have x: "CHR ''#'' \<notin> set ?x" using s(2,4) by simp
  from s(5) show ?thesis
  proof
    assume "rest = []"
    then show ?thesis
      unfolding query_url_def by (simp add: urlparse_query [OF s(1,2,4)])
  next
    assume r: "rest = CHR ''#'' # tl rest"
    have u: "query_url pre items rest = ?x @ CHR ''#'' # tl rest"
      unfolding query_url_def using r by simp
    show ?thesis
      unfolding u urlparse_fragment [OF x] urlparse_query [OF s(1,2,4)] by simp
  qed
qed

lemma parsed_fragment_shape:
  assumes "fragment_shape pre mid items rest"
  shows "(urlparse ok (fragment_url pre mid items rest) = None) = (urlparse ok pre = None)"
  unfolding fragment_url_def
  by (simp add: urlparse_fragment [OF fragment_shape_parts(1) [OF assms]])

text \<open>Fields without an equals sign do not reach the signature.\<close>

lemma signature_same_fields:
  assumes "(query_shape pre items1 rest \<and> query_shape pre items2 rest
            \<and> u1 = query_url pre items1 rest \<and> u2 = query_url pre items2 rest)
         \<or> (fragment_shape pre mid items1 rest \<and> fragment_shape pre mid items2 rest
            \<and> u1 = fragment_url pre mid items1 rest \<and> u2 = fragment_url pre mid items2 rest)"
    and "filter has_eq items1 = filter has_eq items2"
    and "urlparse ok u1 \<noteq> None"
  shows "get_url_signature ok u1 = get_url_signature ok u2"
  using assms(1)
proof (elim disjE conjE)
  assume q: "query_shape pre items1 rest" "query_shape pre items2 rest"
    and u: "u1 = query_url pre items1 rest" "u2 = query_url pre items2 rest"
  from assms(3) obtain r where "urlparse ok pre = Some r"
    unfolding u parsed_query_shape [OF q(1)] by auto
  then show ?thesis
    unfolding u signature_query_shape [OF q(1)] signature_query_shape [OF q(2)]
    by (simp add: assms(2))
next
  assume f: "fragment_shape pre mid items1 rest" "fragment_shape pre mid items2 rest"
    and u: "u1 = fragment_url pre mid items1 rest" "u2 = fragment_url pre mid items2 rest"
  from assms(3) obtain r where "urlparse ok pre = Some r"
    unfolding u parsed_fragment_shape [OF f(1)] by auto
  then show ?thesis
    unfolding u signature_fragment_shape [OF f(1)] signature_fragment_shape [OF f(2)]
    by (simp add: assms(2))
qed

subsection \<open>The URL loop of the loader\<close>

lemma collect_urls_skipped:
  "collect_urls ok us valid seen (Suc k)
     = (fst (collect_urls ok us valid seen k), Suc (snd (collect_urls ok us valid seen k)))"
  by (induction us arbitrary: valid seen k) simp_all

lemma collect_urls_duplicate:
  assumes "validate_url u2"
    and "get_url_signature ok u2 \<in> seen \<union> get_url_signature ok ` {u \<in> set xs. validate_url u}"
  shows "collect_urls ok (xs @ u2 # ys) valid seen k
           = (fst (collect_urls ok (xs @ ys) valid seen k),
              Suc (snd (collect_urls ok (xs @ ys) valid seen k)))"
  using assms(2)
proof (induction xs arbitrary: valid seen k)
  case Nil
  with assms(1) show ?case by (simp add: collect_urls_skipped)
next
  case (Cons x xs)
  show ?case
  proof (cases "validate_url x")
    case False
    with Cons.prems have "get_url_signature ok u2
        \<in> seen \<union> get_url_signature ok ` {u \<in> set xs. validate_url u}" by auto
    from Cons.IH [OF this] False show ?thesis by simp
  next
    case True
    show ?thesis
    proof (cases "get_url_signature ok x \<in> seen")
      case True
      with Cons.prems have "get_url_signature ok u2
          \<in> seen \<union> get_url_signature ok ` {u \<in> set xs. validate_url u}" by auto
      from Cons.IH [OF this] True \<open>validate_url x\<close> show ?thesis by simp
    next
      case False
      from Cons.prems \<open>validate_url x\<close> have "get_url_signature ok u2
          \<in> insert (get_url_signature ok x) seen
             \<union> get_url_signature ok ` {u \<in> set xs. validate_url u}" by auto
      from Cons.IH [OF this] False \<open>validate_url x\<close> show ?thesis by simp
    qed
  qed
qed

text \<open>
  Claim C10, as the code has it. Two URLs that the library parses differ only by fields
  without an equals sign: they are built from the same parts and from two field lists
  whose fields with an equals sign are the same, in the same order. The fields are in the
  query component, with or without a fragment behind, or in the query behind the
  fragment, which the code reads up to the next question mark, so that no field there
  holds one. Then the two signatures are equal; and
  when both URLs pass \<open>validate_url\<close> and the first is in the list before the second,
  \<open>load_files\<close> skips the second: the kept list is the one of the input without it, and the
  skip counter is one higher.
\<close>

theorem valueless_parameters_collapse:
  assumes "(query_shape pre items1 rest \<and> query_shape pre items2 rest
            \<and> u1 = query_url pre items1 rest \<and> u2 = query_url pre items2 rest)
         \<or> (fragment_shape pre mid items1 rest \<and> fragment_shape pre mid items2 rest
            \<and> u1 = fragment_url pre mid items1 rest \<and> u2 = fragment_url pre mid items2 rest)"
    and "filter has_eq items1 = filter has_eq items2"
    and "urlparse ok u1 \<noteq> None"
    and "validate_url u1" and "validate_url u2" and "u1 \<in> set xs"
  shows "get_url_signature ok u1 = get_url_signature ok u2
       \<and> collect_urls ok (xs @ u2 # ys) [] {} 0
           = (fst (collect_urls ok (xs @ ys) [] {} 0), Suc (snd (collect_urls ok (xs @ ys) [] {} 0)))
       \<and> load_files ok (xs @ u2 # ys) = load_files ok (xs @ ys)"
proof -
  have s: "get_url_signature ok u1 = get_url_signature ok u2"
    using assms(1,2,3) by (rule signature_same_fields)
  have "u1 \<in> {u \<in> set xs. validate_url u}"
    using assms(4,6) by simp
  hence "get_url_signature ok u1 \<in> get_url_signature ok ` {u \<in> set xs. validate_url u}"
    by (rule imageI)
  hence m: "get_url_signature ok u2
             \<in> {} \<union> get_url_signature ok ` {u \<in> set xs. validate_url u}"
    unfolding s by simp
  have c: "collect_urls ok (xs @ u2 # ys) [] {} 0
           = (fst (collect_urls ok (xs @ ys) [] {} 0), Suc (snd (collect_urls ok (xs @ ys) [] {} 0)))"
    using assms(5) m by (rule collect_urls_duplicate)
  show ?thesis
    using s c by (simp add: load_files_def)
qed

theorem valueless_parameters_collapse_witness:
  "get_url_signature any_netloc ''https://a/x?u=1'' = get_url_signature any_netloc ''https://a/x?u=1&flag''
   \<and> load_files any_netloc [''https://a/x?u=1'', ''https://a/x?u=1&flag''] = Some [''https://a/x?u=1'']
   \<and> get_url_signature any_netloc ''https://a/#/x?u=1''
       = get_url_signature any_netloc ''https://a/#/x?u=1&flag''
   \<and> load_files any_netloc [''https://a/#/x?u=1'', ''https://a/#/x?u=1&flag'']
       = Some [''https://a/#/x?u=1'']"
proof -
  have q: "(query_shape ''https://a/x'' [''u=1''] [] \<and> query_shape ''https://a/x'' [''u=1'', ''flag''] []
            \<and> ''https://a/x?u=1'' = query_url ''https://a/x'' [''u=1''] []
            \<and> ''https://a/x?u=1&flag'' = query_url ''https://a/x'' [''u=1'', ''flag''] [])
         \<or> (fragment_shape ''https://a/x'' [] [''u=1''] []
            \<and> fragment_shape ''https://a/x'' [] [''u=1'', ''flag''] []
            \<and> ''https://a/x?u=1'' = fragment_url ''https://a/x'' [] [''u=1''] []
            \<and> ''https://a/x?u=1&flag'' = fragment_url ''https://a/x'' [] [''u=1'', ''flag''] [])"
    by (simp add: query_shape_def query_url_def)
  have f: "(query_shape ''https://a/'' [''u=1''] [] \<and> query_shape ''https://a/'' [''u=1'', ''flag''] []
            \<and> ''https://a/#/x?u=1'' = query_url ''https://a/'' [''u=1''] []
            \<and> ''https://a/#/x?u=1&flag'' = query_url ''https://a/'' [''u=1'', ''flag''] [])
         \<or> (fragment_shape ''https://a/'' ''/x'' [''u=1''] []
            \<and> fragment_shape ''https://a/'' ''/x'' [''u=1'', ''flag''] []
            \<and> ''https://a/#/x?u=1'' = fragment_url ''https://a/'' ''/x'' [''u=1''] []
            \<and> ''https://a/#/x?u=1&flag'' = fragment_url ''https://a/'' ''/x'' [''u=1'', ''flag''] [])"
    by (simp add: fragment_shape_def fragment_url_def)
  have e: "filter has_eq [''u=1''] = filter has_eq [''u=1'', ''flag'']"
    by (simp add: has_eq_def)
  have p1: "urlparse any_netloc ''https://a/x?u=1'' \<noteq> None" by code_simp
  have p2: "urlparse any_netloc ''https://a/#/x?u=1'' \<noteq> None" by code_simp
  have v1: "validate_url ''https://a/x?u=1''" by code_simp
  have v2: "validate_url ''https://a/x?u=1&flag''" by code_simp
  have v3: "validate_url ''https://a/#/x?u=1''" by code_simp
  have v4: "validate_url ''https://a/#/x?u=1&flag''" by code_simp
  have l1: "load_files any_netloc [''https://a/x?u=1''] = Some [''https://a/x?u=1'']"
    by code_simp
  have l2: "load_files any_netloc [''https://a/#/x?u=1''] = Some [''https://a/#/x?u=1'']"
    by code_simp
  from valueless_parameters_collapse [OF q e p1 v1 v2, of "[''https://a/x?u=1'']" "[]"]
    valueless_parameters_collapse [OF f e p2 v3 v4, of "[''https://a/#/x?u=1'']" "[]"]
  show ?thesis using l1 l2 by simp
qed

text \<open>
  A URL that the library refuses to parse (an opening bracket in the host without the
  closing one) is its own signature: such a pair is kept apart, and both are loaded.
  Behind a fragment the code reads the query up to the next question mark: a field without
  an equals sign that holds one cuts the query, the names behind it are lost, and the pair
  is kept apart as well.
\<close>

theorem unparsable_urls_not_collapsed:
  "validate_url ''https://[a/x?u=1'' \<and> validate_url ''https://[a/x?u=1&flag''
   \<and> get_url_signature any_netloc ''https://[a/x?u=1'' \<noteq> get_url_signature any_netloc ''https://[a/x?u=1&flag''
   \<and> load_files any_netloc [''https://[a/x?u=1'', ''https://[a/x?u=1&flag'']
       = Some [''https://[a/x?u=1'', ''https://[a/x?u=1&flag'']
   \<and> validate_url ''https://a/#/x?u=1&v=2'' \<and> validate_url ''https://a/#/x?u=1&fl?ag&v=2''
   \<and> get_url_signature any_netloc ''https://a/#/x?u=1&v=2'' = ''https://a/?u=&v=''
   \<and> get_url_signature any_netloc ''https://a/#/x?u=1&fl?ag&v=2'' = ''https://a/?u=''
   \<and> load_files any_netloc [''https://a/#/x?u=1&v=2'', ''https://a/#/x?u=1&fl?ag&v=2'']
       = Some [''https://a/#/x?u=1&v=2'', ''https://a/#/x?u=1&fl?ag&v=2'']"
  by code_simp


section \<open>URL normaliser: idempotence, values and the order of names\<close>

subsection \<open>Characters of a scheme\<close>

lemma scheme_char_lower: "scheme_char c \<Longrightarrow> scheme_char (ascii_lower c)"
  by (auto simp: scheme_char_def ascii_lower_def)

lemma scheme_char_lower_idem: "scheme_char c \<Longrightarrow> ascii_lower (ascii_lower c) = ascii_lower c"
  by (auto simp: scheme_char_def ascii_lower_def)

lemma ascii_alpha_lower: "ascii_alpha c \<Longrightarrow> ascii_alpha (ascii_lower c)"
  by (auto simp: ascii_alpha_def ascii_lower_def)

lemma scheme_char_plain:
  "scheme_char c \<Longrightarrow> c \<noteq> CHR '':'' \<and> c \<noteq> CHR ''?'' \<and> c \<noteq> CHR ''#'' \<and> \<not> unsafe_byte c"
  by (auto simp: scheme_char_def unsafe_byte_def)

lemma ascii_alpha_not_c0: "ascii_alpha c \<Longrightarrow> \<not> c0_or_space c"
  by (auto simp: ascii_alpha_def c0_or_space_def)

lemma lower_scheme:
  "list_all scheme_char s \<Longrightarrow> list_all scheme_char (lower s) \<and> lower (lower s) = lower s"
  by (induction s) (simp_all add: lower_def scheme_char_lower scheme_char_lower_idem)


subsection \<open>The components of a parse result\<close>

lemma split_scheme_fst:
  assumes "fst (split_scheme x) \<noteq> []"
  shows "ascii_alpha (hd (fst (split_scheme x)))"
    and "list_all scheme_char (fst (split_scheme x))"
    and "lower (fst (split_scheme x)) = fst (split_scheme x)"
proof -
  from assms have h: "has_scheme x"
    by (simp add: split_scheme_def split: if_splits)
  then have f: "fst (split_scheme x) = lower (before (CHR '':'') x)"
    by (simp add: split_scheme_def)
  from h have ne: "before (CHR '':'') x \<noteq> []" and al: "ascii_alpha (hd x)"
    and sc: "list_all scheme_char (before (CHR '':'') x)"
    by (simp_all add: has_scheme_def)
  from ne have "hd (before (CHR '':'') x) = hd x"
    by (cases x) (auto simp: before_def split: if_splits)
  with ne al show "ascii_alpha (hd (fst (split_scheme x)))"
    by (simp add: f lower_def hd_map ascii_alpha_lower)
  from sc show "list_all scheme_char (fst (split_scheme x))"
    by (simp add: f lower_scheme)
  from sc show "lower (fst (split_scheme x)) = fst (split_scheme x)"
    by (simp add: f lower_scheme)
qed

lemma split_netloc_fst: "c \<in> set (fst (split_netloc x)) \<Longrightarrow> \<not> netloc_end c"
  by (auto simp: split_netloc_def split: if_splits dest: set_takeWhileD)

lemma split_fragment_fst: "CHR ''#'' \<notin> set (fst (split_fragment x))"
  by (simp add: split_fragment_def before_free)

lemma set_split_fragment_fst: "set (fst (split_fragment x)) \<subseteq> set x"
  by (simp add: split_fragment_def set_before)

lemma split_query_fst: "CHR ''?'' \<notin> set (fst (split_query x))"
  by (simp add: split_query_def before_free)

lemma set_split_query: "set (fst (split_query x)) \<subseteq> set x" "set (snd (split_query x)) \<subseteq> set x"
  by (simp_all add: split_query_def set_before set_after)

lemma urlsplit_parts:
  assumes "urlsplit ok u = Some r"
  shows "scheme r \<noteq> [] \<longrightarrow> ascii_alpha (hd (scheme r)) \<and> list_all scheme_char (scheme r)
           \<and> lower (scheme r) = scheme r"
    and "\<forall>c\<in>set (netloc r). \<not> netloc_end c"
    and "CHR ''?'' \<notin> set (path r)" and "CHR ''#'' \<notin> set (path r)"
    and "CHR ''#'' \<notin> set (query r)"
    and "\<forall>c\<in>set (netloc r) \<union> set (path r) \<union> set (query r). \<not> unsafe_byte c"
proof -
  let ?u1 = "clean_url u"
  let ?u2 = "snd (split_scheme ?u1)"
  let ?u3 = "snd (split_netloc ?u2)"
  let ?u4 = "fst (split_fragment ?u3)"
  from assms have r: "r = \<lparr>scheme = fst (split_scheme ?u1), netloc = fst (split_netloc ?u2),
      path = fst (split_query ?u4), params = [], query = snd (split_query ?u4),
      fragment = snd (split_fragment ?u3)\<rparr>"
    by (simp add: urlsplit_def Let_def split: if_splits)
  show "scheme r \<noteq> [] \<longrightarrow> ascii_alpha (hd (scheme r)) \<and> list_all scheme_char (scheme r)
           \<and> lower (scheme r) = scheme r"
    using split_scheme_fst [of ?u1] by (simp add: r)
  show "\<forall>c\<in>set (netloc r). \<not> netloc_end c"
    using split_netloc_fst [of _ ?u2] by (simp add: r)
  show "CHR ''?'' \<notin> set (path r)"
    by (simp add: r split_query_fst)
  have h4: "CHR ''#'' \<notin> set ?u4" by (rule split_fragment_fst)
  show "CHR ''#'' \<notin> set (path r)"
    using h4 set_split_query(1) [of ?u4] by (auto simp: r)
  show "CHR ''#'' \<notin> set (query r)"
    using h4 set_split_query(2) [of ?u4] by (auto simp: r)
  have s2: "set ?u2 \<subseteq> set ?u1" by (rule set_split_scheme_rest)
  have s3: "set ?u3 \<subseteq> set ?u1" using set_split_netloc(2) [of ?u2] s2 by blast
  have s4: "set ?u4 \<subseteq> set ?u1" using set_split_fragment_fst [of ?u3] s3 by blast
  have "set (netloc r) \<subseteq> set ?u1" using set_split_netloc(1) [of ?u2] s2 by (auto simp: r)
  moreover have "set (path r) \<subseteq> set ?u1" using set_split_query(1) [of ?u4] s4 by (auto simp: r)
  moreover have "set (query r) \<subseteq> set ?u1" using set_split_query(2) [of ?u4] s4 by (auto simp: r)
  ultimately show "\<forall>c\<in>set (netloc r) \<union> set (path r) \<union> set (query r). \<not> unsafe_byte c"
    using clean_url_safe [of _ u] by blast
qed

subsection \<open>The path without its parameters\<close>

lemma takeWhile_stop: "\<not> P y \<Longrightarrow> takeWhile P (xs @ y # ys) = takeWhile P xs"
  by (induction xs) simp_all

lemma set_splitparams_fst: "set (fst (splitparams x)) \<subseteq> set x"
proof -
  have a: "set (rev (dropWhile (\<lambda>c. c \<noteq> CHR ''/'') (rev x))) \<subseteq> set x"
    by (auto dest: set_dropWhileD)
  have b: "set (before (CHR '';'') (rev (before (CHR ''/'') (rev x)))) \<subseteq> set x"
    using set_before [of "CHR '';''" "rev (before (CHR ''/'') (rev x))"]
      set_before [of "CHR ''/''" "rev x"] by auto
  show ?thesis
    using a b set_before [of "CHR '';''" x] by (auto simp: splitparams_def Let_def)
qed

lemma splitparams_last_segment:
  "CHR '';'' \<notin> set (takeWhile (\<lambda>c. c \<noteq> CHR ''/'') (rev (fst (splitparams x))))"
proof (cases "CHR ''/'' \<in> set x")
  case False
  have "set (takeWhile (\<lambda>c. c \<noteq> CHR ''/'') (rev (before (CHR '';'') x)))
          \<subseteq> set (before (CHR '';'') x)"
    by (auto dest: set_takeWhileD)
  with False show ?thesis
    using before_free [of "CHR '';''" x] by (auto simp: splitparams_def)
next
  case True
  let ?seg = "rev (before (CHR ''/'') (rev x))"
  let ?dir = "rev (dropWhile (\<lambda>c. c \<noteq> CHR ''/'') (rev x))"
  show ?thesis
  proof (cases "CHR '';'' \<in> set ?seg")
    case False
    with True show ?thesis by (simp add: splitparams_def Let_def before_def)
  next
    case s: True
    from True have dn: "dropWhile (\<lambda>c. c \<noteq> CHR ''/'') (rev x) \<noteq> []"
      by (auto simp: dropWhile_eq_Nil_conv)
    then have "hd (dropWhile (\<lambda>c. c \<noteq> CHR ''/'') (rev x)) = CHR ''/''"
      using hd_dropWhile [of "\<lambda>c. c \<noteq> CHR ''/''" "rev x"] by simp
    with dn obtain d where d: "dropWhile (\<lambda>c. c \<noteq> CHR ''/'') (rev x) = CHR ''/'' # d"
      by (cases "dropWhile (\<lambda>c. c \<noteq> CHR ''/'') (rev x)") auto
    have nf: "CHR ''/'' \<notin> set ?seg"
      using before_free [of "CHR ''/''" "rev x"] by simp
    have nb: "CHR ''/'' \<notin> set (rev (before (CHR '';'') ?seg))"
      using nf set_before [of "CHR '';''" ?seg] by auto
    have "rev (?dir @ before (CHR '';'') ?seg)
            = rev (before (CHR '';'') ?seg) @ CHR ''/'' # d"
      by (simp add: d)
    then have "takeWhile (\<lambda>c. c \<noteq> CHR ''/'') (rev (?dir @ before (CHR '';'') ?seg))
                 = rev (before (CHR '';'') ?seg)"
      using nb by (simp add: takeWhile_neq_append del: rev_append)
    then show ?thesis
      using True s before_free [of "CHR '';''" ?seg]
      by (simp add: splitparams_def Let_def del: rev_append)
  qed
qed

lemma splitparams_none:
  assumes "CHR '';'' \<notin> set (takeWhile (\<lambda>c. c \<noteq> CHR ''/'') (rev x))"
  shows "CHR '';'' \<in> set x \<longrightarrow> splitparams x = (x, [])"
proof (cases "CHR ''/'' \<in> set x")
  case True
  with assms show ?thesis by (simp add: splitparams_def Let_def before_def)
next
  case False
  then have "takeWhile (\<lambda>c. c \<noteq> CHR ''/'') (rev x) = rev x"
    by (auto simp: takeWhile_eq_all_conv)
  with assms show ?thesis by simp
qed

lemma last_segment_dropWhile:
  assumes "CHR '';'' \<notin> set (takeWhile (\<lambda>c. c \<noteq> CHR ''/'') (rev x))"
  shows "CHR '';'' \<notin> set (takeWhile (\<lambda>c. c \<noteq> CHR ''/'')
            (rev (dropWhile (\<lambda>c. c \<noteq> CHR ''/'') x)))"
proof (cases "CHR ''/'' \<in> set x")
  case False
  then have "dropWhile (\<lambda>c. c \<noteq> CHR ''/'') x = []"
    by (simp only: dropWhile_eq_Nil_conv) blast
  then show ?thesis by (simp only: rev.simps takeWhile.simps list.set) simp
next
  case True
  then obtain a b where x: "x = a @ CHR ''/'' # b" and a: "CHR ''/'' \<notin> set a"
    by (auto dest: split_list_first)
  have d: "dropWhile (\<lambda>c. c \<noteq> CHR ''/'') x = CHR ''/'' # b"
    using a by (simp add: x dropWhile_neq_append)
  have "takeWhile (\<lambda>c. c \<noteq> CHR ''/'') (rev x)
          = takeWhile (\<lambda>c. c \<noteq> CHR ''/'') (rev b)"
    using takeWhile_stop [of "\<lambda>c. c \<noteq> CHR ''/''" "CHR ''/''" "rev b" "rev a"]
    by (simp add: x)
  moreover have "takeWhile (\<lambda>c. c \<noteq> CHR ''/'') (rev (CHR ''/'' # b))
          = takeWhile (\<lambda>c. c \<noteq> CHR ''/'') (rev b)"
    using takeWhile_stop [of "\<lambda>c. c \<noteq> CHR ''/''" "CHR ''/''" "rev b" "[]"]
    by simp
  ultimately show ?thesis using assms by (simp add: d)
qed

lemma urlparse_parts:
  assumes "urlparse ok u = Some p"
  shows "scheme p \<noteq> [] \<longrightarrow> ascii_alpha (hd (scheme p)) \<and> list_all scheme_char (scheme p)
           \<and> lower (scheme p) = scheme p"
    and "\<forall>c\<in>set (netloc p). \<not> netloc_end c"
    and "CHR ''?'' \<notin> set (path p)" and "CHR ''#'' \<notin> set (path p)"
    and "CHR ''#'' \<notin> set (query p)"
    and "\<forall>c\<in>set (netloc p) \<union> set (path p) \<union> set (query p). \<not> unsafe_byte c"
    and "scheme p \<in> set uses_params
           \<longrightarrow> CHR '';'' \<notin> set (takeWhile (\<lambda>c. c \<noteq> CHR ''/'') (rev (path p)))"
proof -
  from assms obtain r where r: "urlsplit ok u = Some r"
    and p: "p = (if scheme r \<in> set uses_params \<and> CHR '';'' \<in> set (path r)
                 then r\<lparr>path := fst (splitparams (path r)), params := snd (splitparams (path r))\<rparr>
                 else r)"
    by (auto simp: urlparse_def split: option.splits if_splits)
  have sp: "set (path p) \<subseteq> set (path r)"
    using set_splitparams_fst [of "path r"] by (auto simp: p)
  have e: "scheme p = scheme r" "netloc p = netloc r" "query p = query r"
    by (simp_all add: p)
  note parts = urlsplit_parts [OF r]
  show "scheme p \<noteq> [] \<longrightarrow> ascii_alpha (hd (scheme p)) \<and> list_all scheme_char (scheme p)
           \<and> lower (scheme p) = scheme p"
    using parts(1) by (simp add: e)
  show "\<forall>c\<in>set (netloc p). \<not> netloc_end c" using parts(2) by (simp add: e)
  show "CHR ''?'' \<notin> set (path p)" using parts(3) sp by blast
  show "CHR ''#'' \<notin> set (path p)" using parts(4) sp by blast
  show "CHR ''#'' \<notin> set (query p)" using parts(5) by (simp add: e)
  show "\<forall>c\<in>set (netloc p) \<union> set (path p) \<union> set (query p). \<not> unsafe_byte c"
    using parts(6) sp unfolding e by blast
  show "scheme p \<in> set uses_params
           \<longrightarrow> CHR '';'' \<notin> set (takeWhile (\<lambda>c. c \<noteq> CHR ''/'') (rev (path p)))"
  proof (cases "CHR '';'' \<in> set (path r)")
    case True
    then show ?thesis
      using splitparams_last_segment [of "path r"] by (simp add: p)
  next
    case False
    then have "path p = path r" by (simp add: p)
    moreover have "set (takeWhile (\<lambda>c. c \<noteq> CHR ''/'') (rev (path r))) \<subseteq> set (path r)"
      by (auto dest: set_takeWhileD)
    ultimately show ?thesis using False by auto
  qed
qed


subsection \<open>Parsing a signature again\<close>

lemma urlsplit_base:
  assumes "sch \<noteq> []" and "ascii_alpha (hd sch)" and "list_all scheme_char sch"
    and "lower sch = sch"
    and "\<forall>c\<in>set np. \<not> unsafe_byte c"
    and "CHR ''?'' \<notin> set np" and "CHR ''#'' \<notin> set np"
  shows "urlsplit ok (sch @ ''://'' @ np)
           = (if bad_netloc ok (takeWhile (\<lambda>c. \<not> netloc_end c) np) then None
              else Some \<lparr>scheme = sch, netloc = takeWhile (\<lambda>c. \<not> netloc_end c) np,
                         path = dropWhile (\<lambda>c. \<not> netloc_end c) np, params = [], query = [],
                         fragment = []\<rparr>)"
proof -
  let ?B = "sch @ ''://'' @ np"
  from assms(1) obtain a s' where sch: "sch = a # s'" by (cases sch) auto
  have sc: "\<forall>c\<in>set sch. c \<noteq> CHR '':'' \<and> \<not> unsafe_byte c"
    using assms(3) scheme_char_plain by (auto simp: list_all_iff)
  have "\<not> c0_or_space a" using assms(2) by (simp add: sch ascii_alpha_not_c0)
  then have d: "dropWhile c0_or_space ?B = ?B" by (simp add: sch)
  have "\<forall>c\<in>set ?B. \<not> unsafe_byte c"
    using sc assms(5) by (auto simp: unsafe_byte_def)
  then have "filter (\<lambda>c. \<not> unsafe_byte c) ?B = ?B"
    by (simp only: filter_id_conv)
  with d have c1: "clean_url ?B = ?B" by (simp only: clean_url_def)
  have ns: "CHR '':'' \<notin> set sch" using sc by blast
  have B: "?B = sch @ CHR '':'' # (''//'' @ np)" by simp
  have b: "before (CHR '':'') ?B = sch"
    unfolding B using ns by (rule before_append_sep)
  have a: "after (CHR '':'') ?B = ''//'' @ np"
    unfolding B using ns by (rule after_append_sep)
  have "hd ?B = hd sch" using assms(1) by simp
  then have "has_scheme ?B"
    using assms(1,2,3) b by (simp add: has_scheme_def)
  then have c2: "split_scheme ?B = (sch, ''//'' @ np)"
    using a b assms(4) by (simp add: split_scheme_def)
  have c3: "split_netloc (''//'' @ np)
              = (takeWhile (\<lambda>c. \<not> netloc_end c) np, dropWhile (\<lambda>c. \<not> netloc_end c) np)"
    by (simp add: split_netloc_def)
  let ?pa = "dropWhile (\<lambda>c. \<not> netloc_end c) np"
  have "set ?pa \<subseteq> set np" by (auto dest: set_dropWhileD)
  then have "CHR ''#'' \<notin> set ?pa" "CHR ''?'' \<notin> set ?pa"
    using assms(6,7) by auto
  then have c4: "split_fragment ?pa = (?pa, [])" and c5: "split_query ?pa = (?pa, [])"
    by (simp_all add: split_fragment_none split_query_none)
  show ?thesis
    unfolding urlsplit_def Let_def c1 c2 fst_conv snd_conv c3 c4 c5 by simp
qed

lemma dropWhile_netloc_end:
  assumes "\<forall>c\<in>set nl. \<not> netloc_end c"
    and "CHR ''?'' \<notin> set pa" and "CHR ''#'' \<notin> set pa"
  shows "dropWhile (\<lambda>c. \<not> netloc_end c) (nl @ pa) = dropWhile (\<lambda>c. c \<noteq> CHR ''/'') pa"
proof -
  have "dropWhile (\<lambda>c. \<not> netloc_end c) (nl @ pa) = dropWhile (\<lambda>c. \<not> netloc_end c) pa"
    using assms(1) by (simp add: dropWhile_append2)
  also have "\<dots> = dropWhile (\<lambda>c. c \<noteq> CHR ''/'') pa"
    using assms(2,3) by (intro dropWhile_cong) (auto simp: netloc_end_def)
  finally show ?thesis .
qed

text \<open>
  The signature base built from a parse result with a scheme parses again, or is refused;
  when it parses, the scheme is the same, netloc and path together are the same text, and
  there is no query.
\<close>

lemma urlparse_base:
  assumes "urlparse ok u = Some p" and "scheme p \<noteq> []"
    and "urlparse ok (scheme p @ ''://'' @ netloc p @ path p) = Some r"
  shows "scheme r = scheme p" and "netloc r @ path r = netloc p @ path p" and "query r = []"
proof -
  note parts = urlparse_parts [OF assms(1)]
  let ?np = "netloc p @ path p"
  let ?nl = "takeWhile (\<lambda>c. \<not> netloc_end c) ?np"
  let ?pa = "dropWhile (\<lambda>c. \<not> netloc_end c) ?np"
  let ?r0 = "\<lparr>scheme = scheme p, netloc = ?nl, path = ?pa, params = [], query = [],
               fragment = []\<rparr>"
  have q: "CHR ''?'' \<notin> set ?np" "CHR ''#'' \<notin> set ?np"
    using parts(2,3,4) by (auto simp: netloc_end_def)
  have us: "\<forall>c\<in>set ?np. \<not> unsafe_byte c" using parts(6) by auto
  have sp: "urlsplit ok (scheme p @ ''://'' @ ?np)
              = (if bad_netloc ok ?nl then None else Some ?r0)"
    using assms(2) parts(1) us q by (intro urlsplit_base) simp_all
  have pa: "?pa = dropWhile (\<lambda>c. c \<noteq> CHR ''/'') (path p)"
    using parts(2,3,4) by (rule dropWhile_netloc_end)
  have keep: "scheme p \<in> set uses_params \<and> CHR '';'' \<in> set ?pa \<longrightarrow> splitparams ?pa = (?pa, [])"
  proof (intro impI, elim conjE)
    assume up: "scheme p \<in> set uses_params" and sc: "CHR '';'' \<in> set ?pa"
    from up parts(7)
    have "CHR '';'' \<notin> set (takeWhile (\<lambda>c. c \<noteq> CHR ''/'') (rev (path p)))" by simp
    then have "CHR '';'' \<notin> set (takeWhile (\<lambda>c. c \<noteq> CHR ''/'') (rev ?pa))"
      unfolding pa by (rule last_segment_dropWhile)
    from splitparams_none [OF this] sc show "splitparams ?pa = (?pa, [])" by simp
  qed
  have nb: "\<not> bad_netloc ok ?nl"
  proof
    assume "bad_netloc ok ?nl"
    then have "urlparse ok (scheme p @ ''://'' @ ?np) = None"
      unfolding urlparse_def sp by simp
    with assms(3) show False by simp
  qed
  have "urlparse ok (scheme p @ ''://'' @ ?np) = Some ?r0"
    unfolding urlparse_def sp using nb keep by auto
  with assms(3) have r: "r = ?r0" by simp
  show "scheme r = scheme p" by (simp add: r)
  show "netloc r @ path r = netloc p @ path p" by (simp add: r)
  show "query r = []" by (simp add: r)
qed


subsection \<open>The signature of a signature\<close>

lemma get_url_signature_plain:
  assumes "CHR ''#'' \<notin> set u" and "urlparse ok u = Some r" and "query r = []"
  shows "get_url_signature ok u = scheme r @ ''://'' @ netloc r @ path r"
  using assms
  by (simp add: get_url_signature_parsed signature_query_def signature_params_def
        signature_of_def)

lemma signature_query_free:
  assumes "urlparse ok u = Some p"
  shows "CHR ''#'' \<notin> set (signature_query u p)"
proof -
  let ?x = "split_on (CHR ''#'') u ! 1"
  let ?q = "split_on (CHR ''?'') ?x ! 1"
  have frag: "CHR ''#'' \<notin> set ?q"
    if h: "CHR ''#'' \<in> set u" and q: "CHR ''?'' \<in> set ?x"
  proof -
    from h have "2 \<le> length (split_on (CHR ''#'') u)" by (rule split_on_length)
    then have x: "?x \<in> set (split_on (CHR ''#'') u)" by simp
    from q have "2 \<le> length (split_on (CHR ''?'') ?x)" by (rule split_on_length)
    then have y: "?q \<in> set (split_on (CHR ''?'') ?x)" by simp
    from x have x1: "CHR ''#'' \<notin> set ?x" by (rule split_on_parts_free)
    from y have "set ?q \<subseteq> set ?x" by (rule split_on_parts_subset)
    with x1 show ?thesis by blast
  qed
  note parts = urlparse_parts [OF assms(1)]
  show "CHR ''#'' \<notin> set (signature_query u p)"
    using frag parts(5) by (simp add: signature_query_def)
qed

lemma signature_params_names:
  assumes "n \<in> set (signature_params qry)"
  shows "\<exists>m. n = m @ ''='' \<and> m \<noteq> [] \<and> CHR ''='' \<notin> set m \<and> CHR ''&'' \<notin> set m
              \<and> set m \<subseteq> set qry"
proof -
  from assms obtain i where i: "i \<in> set (split_on (CHR ''&'') qry)"
    and ne: "before (CHR ''='') i \<noteq> []" and n: "n = before (CHR ''='') i @ ''=''"
    by (auto simp: signature_params_split)
  from i have "CHR ''&'' \<notin> set i" "set i \<subseteq> set qry"
    by (rule split_on_parts_free, rule split_on_parts_subset)
  then have "CHR ''&'' \<notin> set (before (CHR ''='') i)" "set (before (CHR ''='') i) \<subseteq> set qry"
    using set_before [of "CHR ''=''" i] by auto
  with ne n before_free [of "CHR ''=''" i] show ?thesis by blast
qed

lemma map_filter_fixed:
  "\<forall>x\<in>set xs. P x \<and> f x = x \<Longrightarrow> map f (filter P xs) = xs"
  by (induction xs) simp_all

lemma signature_params_fixed:
  assumes "\<forall>n\<in>set names. \<exists>m. n = m @ ''='' \<and> m \<noteq> [] \<and> CHR ''='' \<notin> set m
              \<and> CHR ''&'' \<notin> set m"
  shows "signature_params (join (CHR ''&'') names) = names"
proof -
  have a: "\<forall>x\<in>set names. CHR ''&'' \<notin> set x"
    using assms by auto
  have b: "\<forall>x\<in>set names. (has_eq x \<and> before (CHR ''='') x \<noteq> [])
             \<and> before (CHR ''='') x @ ''='' = x"
  proof
    fix x assume "x \<in> set names"
    with assms obtain m where m: "x = m @ ''=''" "m \<noteq> []" "CHR ''='' \<notin> set m" by blast
    have "before (CHR ''='') (m @ CHR ''='' # []) = m"
      using m(3) by (rule before_append_sep)
    with m show "(has_eq x \<and> before (CHR ''='') x \<noteq> []) \<and> before (CHR ''='') x @ ''='' = x"
      by (simp add: has_eq_def)
  qed
  show ?thesis
    unfolding signature_params_join [OF a] using b by (rule map_filter_fixed)
qed

lemma if_both: "f a = z \<Longrightarrow> f b = z \<Longrightarrow> f (if c then a else b) = z"
  by simp

text \<open>
  The signature of a signature. A refused URL is its own signature, and so is a signature
  that is refused. Otherwise the base parses again to the same scheme and the same text of
  netloc and path, and the names \<open>name=\<close> are read again as they are, when \<open>urlsplit\<close>
  finds no tab, carriage return or line feed to remove from them.
\<close>

lemma signature_idempotent:
  assumes "urlparse ok u = None \<or> urlparse ok (get_url_signature ok u) = None
         \<or> (urlparse ok u = Some p \<and> scheme p \<noteq> []
            \<and> list_all (list_all (\<lambda>c. \<not> unsafe_byte c)) (signature_params (signature_query u p)))"
  shows "get_url_signature ok (get_url_signature ok u) = get_url_signature ok u"
  using assms
proof (elim disjE conjE)
  assume "urlparse ok u = None"
  then show ?thesis by (simp add: get_url_signature_refused)
next
  assume "urlparse ok (get_url_signature ok u) = None"
  then show ?thesis by (rule get_url_signature_refused)
next
  assume pu: "urlparse ok u = Some p" and sch: "scheme p \<noteq> []"
    and safe: "list_all (list_all (\<lambda>c. \<not> unsafe_byte c)) (signature_params (signature_query u p))"
  let ?B = "scheme p @ ''://'' @ netloc p @ path p"
  let ?names = "signature_params (signature_query u p)"
  let ?q = "join (CHR ''&'') ?names"
  note parts = urlparse_parts [OF pu]
  note qf = signature_query_free [OF pu]
  have sg: "get_url_signature ok u = signature_of p ?names"
    using pu by (rule get_url_signature_parsed)
  have sc: "\<forall>c\<in>set (scheme p). c \<noteq> CHR ''?'' \<and> c \<noteq> CHR ''#''"
    using sch parts(1) scheme_char_plain by (auto simp: list_all_iff)
  have B: "CHR ''?'' \<notin> set ?B" "CHR ''#'' \<notin> set ?B"
    using sc parts(2,3,4) by (auto simp: netloc_end_def)
  have nm: "\<forall>n\<in>set ?names. \<exists>m. n = m @ ''='' \<and> m \<noteq> [] \<and> CHR ''='' \<notin> set m
              \<and> CHR ''&'' \<notin> set m \<and> set m \<subseteq> set (signature_query u p)"
    using signature_params_names by blast
  have nc: "\<forall>n\<in>set ?names. set n \<subseteq> insert (CHR ''='') (set (signature_query u p))"
  proof
    fix n assume "n \<in> set ?names"
    with nm obtain m where "n = m @ ''=''" "set m \<subseteq> set (signature_query u p)" by blast
    then show "set n \<subseteq> insert (CHR ''='') (set (signature_query u p))" by auto
  qed
  have "\<forall>n\<in>set ?names. CHR ''#'' \<notin> set n"
    using nc qf by auto
  then have h: "CHR ''#'' \<notin> set ?q"
    by (rule join_free) simp
  have us: "\<forall>n\<in>set ?names. \<forall>c\<in>set n. \<not> unsafe_byte c"
    using safe by (simp add: list_all_iff)
  have "\<forall>c\<in>set ?q. \<not> unsafe_byte c"
  proof
    fix c assume c: "c \<in> set ?q"
    show "\<not> unsafe_byte c"
    proof
      assume u: "unsafe_byte c"
      then have "c \<noteq> CHR ''&''" by (auto simp: unsafe_byte_def)
      moreover from u us have "\<forall>n\<in>set ?names. c \<notin> set n" by blast
      ultimately have "c \<notin> set ?q" by (intro join_free)
      with c show False by simp
    qed
  qed
  then have fq: "filter (\<lambda>c. \<not> unsafe_byte c) ?q = ?q"
    by (simp only: filter_id_conv)
  have fx: "signature_params ?q = ?names"
    using nm by (intro signature_params_fixed) blast
  have su: "get_url_signature ok u = (if ?names = [] then ?B else ?B @ CHR ''?'' # ?q)"
    by (simp add: sg signature_of_def)
  show ?thesis
  proof (cases "urlparse ok ?B")
    case None
    have "urlparse ok (?B @ CHR ''?'' # ?q) = None"
      unfolding urlparse_query [OF B h] None by simp
    with None have "urlparse ok (get_url_signature ok u) = None"
      unfolding su by (rule if_both)
    then show ?thesis by (rule get_url_signature_refused)
  next
    case (Some r)
    note base = urlparse_base [OF pu sch Some]
    show ?thesis
    proof (cases "?names = []")
      case True
      have "get_url_signature ok ?B = scheme r @ ''://'' @ netloc r @ path r"
        using B(2) Some base(3) by (rule get_url_signature_plain)
      also have "\<dots> = ?B" using base(1,2) by simp
      finally show ?thesis unfolding su using True by simp
    next
      case False
      have "get_url_signature ok (?B @ CHR ''?'' # ?q) = signature_of r ?names"
        unfolding get_url_signature_query [OF B h] Some fq fx by simp
      also have "\<dots> = scheme p @ ''://'' @ (netloc p @ path p) @ ''?'' @ ?q"
        using False base(1) by (simp add: signature_of_def flip: base(2))
      also have "\<dots> = ?B @ CHR ''?'' # ?q" by simp
      finally show ?thesis unfolding su using False by simp
    qed
  qed
qed

subsection \<open>Values and the order of names\<close>

lemma map_filter_via:
  assumes "map h xs = map h ys"
  shows "map (\<lambda>x. g (h x)) (filter (\<lambda>x. P (h x)) xs) = map (\<lambda>x. g (h x)) (filter (\<lambda>x. P (h x)) ys)"
proof -
  have "\<And>zs. map (\<lambda>x. g (h x)) (filter (\<lambda>x. P (h x)) zs) = map g (filter P (map h zs))"
    subgoal for zs by (induction zs) simp_all
    done
  then show ?thesis using assms by simp
qed

lemma same_names_kept:
  assumes "same_names items1 items2"
  shows "map (\<lambda>i. f (before (CHR ''='') i) @ ''='')
           (filter (\<lambda>i. f (before (CHR ''='') i) \<noteq> []) (filter has_eq items1))
       = map (\<lambda>i. f (before (CHR ''='') i) @ ''='')
           (filter (\<lambda>i. f (before (CHR ''='') i) \<noteq> []) (filter has_eq items2))"
proof -
  from assms have m: "map (\<lambda>i. (has_eq i, before (CHR ''='') i)) items1
                      = map (\<lambda>i. (has_eq i, before (CHR ''='') i)) items2"
    by (simp add: same_names_def)
  from map_filter_via [OF m, of "\<lambda>eb. f (snd eb) @ ''=''" "\<lambda>eb. fst eb \<and> f (snd eb) \<noteq> []"]
  show ?thesis by (simp add: conj_commute)
qed

lemma signature_same_names:
  assumes "(query_shape pre items1 rest \<and> query_shape pre items2 rest
            \<and> u1 = query_url pre items1 rest \<and> u2 = query_url pre items2 rest)
         \<or> (fragment_shape pre mid items1 rest \<and> fragment_shape pre mid items2 rest
            \<and> u1 = fragment_url pre mid items1 rest \<and> u2 = fragment_url pre mid items2 rest)"
    and "same_names items1 items2"
    and "urlparse ok u1 \<noteq> None"
  shows "get_url_signature ok u1 = get_url_signature ok u2"
  using assms(1)
proof (elim disjE conjE)
  assume q: "query_shape pre items1 rest" "query_shape pre items2 rest"
    and u: "u1 = query_url pre items1 rest" "u2 = query_url pre items2 rest"
  from assms(3) obtain r where "urlparse ok pre = Some r"
    unfolding u parsed_query_shape [OF q(1)] by auto
  then show ?thesis
    unfolding u signature_query_shape [OF q(1)] signature_query_shape [OF q(2)]
      same_names_kept [OF assms(2), of "filter (\<lambda>c. \<not> unsafe_byte c)"]
    by simp
next
  assume f: "fragment_shape pre mid items1 rest" "fragment_shape pre mid items2 rest"
    and u: "u1 = fragment_url pre mid items1 rest" "u2 = fragment_url pre mid items2 rest"
  from assms(3) obtain r where "urlparse ok pre = Some r"
    unfolding u parsed_fragment_shape [OF f(1)] by auto
  then show ?thesis
    unfolding u signature_fragment_shape [OF f(1)] signature_fragment_shape [OF f(2)]
      same_names_kept [OF assms(2), of "\<lambda>b. b"]
    by simp
qed

lemma signature_name_order:
  "get_url_signature ok ''https://a/x?u=1&v=2'' \<noteq> get_url_signature ok ''https://a/x?v=2&u=1''"
proof -
  have q: "CHR ''?'' \<notin> set ''https://a/x''" "CHR ''#'' \<notin> set ''https://a/x''"
    "CHR ''#'' \<notin> set ''u=1&v=2''" "CHR ''#'' \<notin> set ''v=2&u=1''"
    by simp_all
  have n1: "signature_params (filter (\<lambda>c. \<not> unsafe_byte c) ''u=1&v=2'') = [''u='', ''v='']"
    by code_simp
  have n2: "signature_params (filter (\<lambda>c. \<not> unsafe_byte c) ''v=2&u=1'') = [''v='', ''u='']"
    by code_simp
  have s1: "get_url_signature ok (''https://a/x'' @ CHR ''?'' # ''u=1&v=2'')
              = (case urlparse ok ''https://a/x'' of None \<Rightarrow> ''https://a/x'' @ CHR ''?'' # ''u=1&v=2''
                 | Some r \<Rightarrow> signature_of r [''u='', ''v=''])"
    unfolding get_url_signature_query [OF q(1,2,3)] n1 ..
  have s2: "get_url_signature ok (''https://a/x'' @ CHR ''?'' # ''v=2&u=1'')
              = (case urlparse ok ''https://a/x'' of None \<Rightarrow> ''https://a/x'' @ CHR ''?'' # ''v=2&u=1''
                 | Some r \<Rightarrow> signature_of r [''v='', ''u=''])"
    unfolding get_url_signature_query [OF q(1,2,4)] n2 ..
  have "get_url_signature ok (''https://a/x'' @ CHR ''?'' # ''u=1&v=2'')
          \<noteq> get_url_signature ok (''https://a/x'' @ CHR ''?'' # ''v=2&u=1'')"
    unfolding s1 s2 by (cases "urlparse ok ''https://a/x''") (simp_all add: signature_of_def)
  then show ?thesis by simp
qed

text \<open>
  Claim C8, as the code has it. For every validation of the library: the signature of a
  URL is its own signature when the library refuses the URL or its signature, and when it
  parses the URL with a scheme and the names that the signature keeps hold no tab,
  carriage return or line feed. Two URLs that the library parses and that differ only in
  values have equal signatures: they are built from the same parts and from two field
  lists with the same names in the same order, in the query component, with or without a
  fragment behind, or in the query behind the fragment, which the code reads up to the
  next question mark, so that no field there holds one. And exchanging the two names of
  \<open>https://a/x?u=1&v=2\<close> changes the signature.
\<close>

theorem signature_idempotent_and_value_stable:
  "((urlparse ok u = None \<or> urlparse ok (get_url_signature ok u) = None
     \<or> (urlparse ok u = Some p \<and> scheme p \<noteq> []
        \<and> list_all (list_all (\<lambda>c. \<not> unsafe_byte c)) (signature_params (signature_query u p))))
      \<longrightarrow> get_url_signature ok (get_url_signature ok u) = get_url_signature ok u)
   \<and> ((((query_shape pre items1 rest \<and> query_shape pre items2 rest
          \<and> u1 = query_url pre items1 rest \<and> u2 = query_url pre items2 rest)
         \<or> (fragment_shape pre mid items1 rest \<and> fragment_shape pre mid items2 rest
            \<and> u1 = fragment_url pre mid items1 rest \<and> u2 = fragment_url pre mid items2 rest))
        \<and> same_names items1 items2 \<and> urlparse ok u1 \<noteq> None)
      \<longrightarrow> get_url_signature ok u1 = get_url_signature ok u2)
   \<and> get_url_signature ok ''https://a/x?u=1&v=2'' \<noteq> get_url_signature ok ''https://a/x?v=2&u=1''"
proof (intro conjI impI)
  assume "urlparse ok u = None \<or> urlparse ok (get_url_signature ok u) = None
     \<or> (urlparse ok u = Some p \<and> scheme p \<noteq> []
        \<and> list_all (list_all (\<lambda>c. \<not> unsafe_byte c)) (signature_params (signature_query u p)))"
  then show "get_url_signature ok (get_url_signature ok u) = get_url_signature ok u"
    by (rule signature_idempotent)
next
  assume a: "((query_shape pre items1 rest \<and> query_shape pre items2 rest
          \<and> u1 = query_url pre items1 rest \<and> u2 = query_url pre items2 rest)
         \<or> (fragment_shape pre mid items1 rest \<and> fragment_shape pre mid items2 rest
            \<and> u1 = fragment_url pre mid items1 rest \<and> u2 = fragment_url pre mid items2 rest))
        \<and> same_names items1 items2 \<and> urlparse ok u1 \<noteq> None"
  from a [THEN conjunct1] a [THEN conjunct2, THEN conjunct1] a [THEN conjunct2, THEN conjunct2]
  show "get_url_signature ok u1 = get_url_signature ok u2"
    by (rule signature_same_names)
next
  show "get_url_signature ok ''https://a/x?u=1&v=2'' \<noteq> get_url_signature ok ''https://a/x?v=2&u=1''"
    by (rule signature_name_order)
qed

theorem signature_idempotent_and_value_stable_witness:
  "get_url_signature any_netloc (get_url_signature any_netloc ''https://a/x?u=1&v=2'')
     = get_url_signature any_netloc ''https://a/x?u=1&v=2''
   \<and> get_url_signature any_netloc (get_url_signature any_netloc ''http://[a/x?u=1'')
     = get_url_signature any_netloc ''http://[a/x?u=1''
   \<and> get_url_signature any_netloc ''https://a/x?u=1&flag&v=2#top''
     = get_url_signature any_netloc ''https://a/x?u=7&flag&v=8#top''
   \<and> get_url_signature any_netloc ''https://a/#/x?u=1''
     = get_url_signature any_netloc ''https://a/#/x?u=2''"
proof -
  let ?p = "\<lparr>scheme = ''https'', netloc = ''a'', path = ''/x'', params = [],
             query = ''u=1&v=2'', fragment = []\<rparr>"
  have pu: "urlparse any_netloc ''https://a/x?u=1&v=2'' = Some ?p" by code_simp
  have nm: "signature_params (signature_query ''https://a/x?u=1&v=2'' ?p) = [''u='', ''v='']"
    by code_simp
  have h1: "urlparse any_netloc ''https://a/x?u=1&v=2'' = None
     \<or> urlparse any_netloc (get_url_signature any_netloc ''https://a/x?u=1&v=2'') = None
     \<or> (urlparse any_netloc ''https://a/x?u=1&v=2'' = Some ?p \<and> scheme ?p \<noteq> []
        \<and> list_all (list_all (\<lambda>c. \<not> unsafe_byte c))
             (signature_params (signature_query ''https://a/x?u=1&v=2'' ?p)))"
    unfolding nm pu by (simp add: unsafe_byte_def)
  have rf: "urlparse any_netloc ''http://[a/x?u=1'' = None" by code_simp
  then have h2: "urlparse any_netloc ''http://[a/x?u=1'' = None
     \<or> urlparse any_netloc (get_url_signature any_netloc ''http://[a/x?u=1'') = None
     \<or> (urlparse any_netloc ''http://[a/x?u=1'' = Some ?p \<and> scheme ?p \<noteq> []
        \<and> list_all (list_all (\<lambda>c. \<not> unsafe_byte c))
             (signature_params (signature_query ''http://[a/x?u=1'' ?p)))"
    by (rule disjI1)
  have q: "((query_shape ''https://a/x'' [''u=1'', ''flag'', ''v=2''] ''#top''
          \<and> query_shape ''https://a/x'' [''u=7'', ''flag'', ''v=8''] ''#top''
          \<and> ''https://a/x?u=1&flag&v=2#top'' = query_url ''https://a/x'' [''u=1'', ''flag'', ''v=2''] ''#top''
          \<and> ''https://a/x?u=7&flag&v=8#top'' = query_url ''https://a/x'' [''u=7'', ''flag'', ''v=8''] ''#top'')
         \<or> (fragment_shape ''https://a/x'' [] [''u=1'', ''flag'', ''v=2''] ''#top''
            \<and> fragment_shape ''https://a/x'' [] [''u=7'', ''flag'', ''v=8''] ''#top''
            \<and> ''https://a/x?u=1&flag&v=2#top'' = fragment_url ''https://a/x'' [] [''u=1'', ''flag'', ''v=2''] ''#top''
            \<and> ''https://a/x?u=7&flag&v=8#top'' = fragment_url ''https://a/x'' [] [''u=7'', ''flag'', ''v=8''] ''#top''))
        \<and> same_names [''u=1'', ''flag'', ''v=2''] [''u=7'', ''flag'', ''v=8'']
        \<and> urlparse any_netloc ''https://a/x?u=1&flag&v=2#top'' \<noteq> None"
  proof (intro conjI disjI1)
    show "urlparse any_netloc ''https://a/x?u=1&flag&v=2#top'' \<noteq> None" by code_simp
  qed (simp_all add: query_shape_def query_url_def same_names_def has_eq_def before_def)
  have f: "((query_shape ''https://a/'' [''u=1''] [] \<and> query_shape ''https://a/'' [''u=2''] []
          \<and> ''https://a/#/x?u=1'' = query_url ''https://a/'' [''u=1''] []
          \<and> ''https://a/#/x?u=2'' = query_url ''https://a/'' [''u=2''] [])
         \<or> (fragment_shape ''https://a/'' ''/x'' [''u=1''] []
            \<and> fragment_shape ''https://a/'' ''/x'' [''u=2''] []
            \<and> ''https://a/#/x?u=1'' = fragment_url ''https://a/'' ''/x'' [''u=1''] []
            \<and> ''https://a/#/x?u=2'' = fragment_url ''https://a/'' ''/x'' [''u=2''] []))
        \<and> same_names [''u=1''] [''u=2'']
        \<and> urlparse any_netloc ''https://a/#/x?u=1'' \<noteq> None"
  proof (intro conjI disjI2)
    show "urlparse any_netloc ''https://a/#/x?u=1'' \<noteq> None" by code_simp
  qed (simp_all add: fragment_shape_def fragment_url_def same_names_def has_eq_def before_def)
  note t1 = signature_idempotent_and_value_stable [of any_netloc "''https://a/x?u=1&v=2''" ?p
      "''https://a/x''" "[''u=1'', ''flag'', ''v=2'']" "''#top''" "[''u=7'', ''flag'', ''v=8'']"
      "''https://a/x?u=1&flag&v=2#top''" "''https://a/x?u=7&flag&v=8#top''" "[]"]
  note t2 = signature_idempotent_and_value_stable [of any_netloc "''http://[a/x?u=1''" ?p
      "''https://a/''" "[''u=1'']" "[]" "[''u=2'']"
      "''https://a/#/x?u=1''" "''https://a/#/x?u=2''" "''/x''"]
  show ?thesis
    using t1 [THEN conjunct1, THEN mp, OF h1] t2 [THEN conjunct1, THEN mp, OF h2]
      t1 [THEN conjunct2, THEN conjunct1, THEN mp, OF q]
      t2 [THEN conjunct2, THEN conjunct1, THEN mp, OF f]
    by (intro conjI)
qed

text \<open>
  Without a scheme the base of the signature starts with \<open>://\<close>, and taking the signature
  again puts a second \<open>://\<close> in front: the percent-encoded URL below passes
  \<open>validate_url\<close>, which decodes before it looks at the prefix, and has no scheme for the
  library. A name behind a fragment is read from the raw URL and keeps its tab; when the
  signature is parsed again, \<open>urlsplit\<close> removes it. A URL that the library refuses is its
  own signature, values included. Behind a fragment the query ends at the next question
  mark: a value that holds one cuts the names behind it.
\<close>

theorem signature_not_idempotent:
  "validate_url ''http%3A//a/x?u=1''
   \<and> get_url_signature any_netloc ''http%3A//a/x?u=1'' = ''://http%3A//a/x?u=''
   \<and> get_url_signature any_netloc (get_url_signature any_netloc ''http%3A//a/x?u=1'')
        = ''://://http%3A//a/x?u=''
   \<and> validate_url (''http://a/#/x?u'' @ CHR 0x09 # ''=1'')
   \<and> get_url_signature any_netloc (''http://a/#/x?u'' @ CHR 0x09 # ''=1'')
        = ''http://a/?u'' @ CHR 0x09 # ''=''
   \<and> get_url_signature any_netloc
        (get_url_signature any_netloc (''http://a/#/x?u'' @ CHR 0x09 # ''=1''))
        = ''http://a/?u=''
   \<and> validate_url ''http://[a/x?u=1'' \<and> validate_url ''http://[a/x?u=2''
   \<and> get_url_signature any_netloc ''http://[a/x?u=1'' \<noteq> get_url_signature any_netloc ''http://[a/x?u=2''
   \<and> validate_url ''https://a/#/x?u=1&v=2'' \<and> validate_url ''https://a/#/x?u=1?&v=2''
   \<and> get_url_signature any_netloc ''https://a/#/x?u=1&v=2'' = ''https://a/?u=&v=''
   \<and> get_url_signature any_netloc ''https://a/#/x?u=1?&v=2'' = ''https://a/?u=''"
  by code_simp

end
